theory Spec2Isabelle
  imports Complex_Main "HOL-Library.Word" "HOL-Library.Sublist"
begin

section \<open>Byte buffers and the framing arithmetic of \<open>runOta\<close>\<close>

text \<open>
  The firmware image is the \<^verbatim>\<open>Uint8Array\<close> \<^verbatim>\<open>raw\<close>; a byte is an 8-bit word.
  \<^verbatim>\<open>const SECTOR_SIZE = 4096;\<close>
\<close>

type_synonym byte = "8 word"

definition SECTOR_SIZE :: nat where
  "SECTOR_SIZE = 4096"

text \<open>
  \<^verbatim>\<open>Math.ceil(a / b)\<close> on two array lengths. The lengths are non-negative integers
  far below \<open>2 ^ 53\<close> and the divisors of the source are 4096, 20 and 244, so the
  double quotient lies on the same side of every integer as the exact quotient and the
  result is the integer ceiling; \<open>ceil_div_real\<close> below ties it to the real quotient.
\<close>

definition ceil_div :: "nat \<Rightarrow> nat \<Rightarrow> nat" where
  "ceil_div a b = (if a mod b = 0 then a div b else a div b + 1)"

text \<open>
  \<^verbatim>\<open>xs.slice(a, b)\<close> of a typed array for \<open>0 \<le> a\<close>: both ends are clamped to the
  length, and an end before the start gives the empty array.
\<close>

definition slice :: "'a list \<Rightarrow> nat \<Rightarrow> nat \<Rightarrow> 'a list" where
  "slice xs a b = take (b - a) (drop a xs)"

text \<open>\<^verbatim>\<open>const totalS = Math.ceil(raw.length / SECTOR_SIZE);\<close>\<close>

definition totalS :: "byte list \<Rightarrow> nat" where
  "totalS raw = ceil_div (length raw) SECTOR_SIZE"

text \<open>\<^verbatim>\<open>const pSize = fastMode ? 244 : 20;\<close>\<close>

definition pSize :: "bool \<Rightarrow> nat" where
  "pSize fastMode = (if fastMode then 244 else 20)"

text \<open>\<^verbatim>\<open>const sData = raw.slice(s * SECTOR_SIZE, (s + 1) * SECTOR_SIZE);\<close>\<close>

definition sData :: "byte list \<Rightarrow> nat \<Rightarrow> byte list" where
  "sData raw s = slice raw (s * SECTOR_SIZE) ((s + 1) * SECTOR_SIZE)"

text \<open>\<^verbatim>\<open>const pkts = Math.ceil(sData.length / pSize);\<close>\<close>

definition pkts :: "bool \<Rightarrow> byte list \<Rightarrow> nat" where
  "pkts fastMode sd = ceil_div (length sd) (pSize fastMode)"

text \<open>\<^verbatim>\<open>const chunk = sData.slice(p * pSize, (p + 1) * pSize);\<close>\<close>

definition chunk :: "bool \<Rightarrow> byte list \<Rightarrow> nat \<Rightarrow> byte list" where
  "chunk fastMode sd p = slice sd (p * pSize fastMode) ((p + 1) * pSize fastMode)"

text \<open>
  \<^verbatim>\<open>pdv.setUint8(2, p === pkts - 1 ? 0xFF : p);\<close>
  \<^verbatim>\<open>setUint8\<close> stores its argument modulo 256, which is what \<open>word_of_nat\<close> does.
  The first argument is the packet count of the sector; the loop only runs for
  \<open>p < pkts\<close>, so \<open>pkts - 1\<close> is never taken at 0.
\<close>

definition seq_byte :: "nat \<Rightarrow> nat \<Rightarrow> byte" where
  "seq_byte n p = word_of_nat (if p = n - 1 then 255 else p)"

text \<open>
  \<^verbatim>\<open>pdv.setUint16(0, s, true)\<close>: the sector index modulo 65536, low byte first.
\<close>

definition setUint16_le :: "nat \<Rightarrow> byte list" where
  "setUint16_le v = [word_of_nat v, word_of_nat (v div 256)]"

text \<open>
  The packet buffer \<^verbatim>\<open>pBuf\<close> written for packet \<open>p\<close> of sector \<open>s\<close>:
  \<^verbatim>\<open>new Uint8Array(3 + chunk.length)\<close>, the sector index at offset 0, the sequence
  byte at offset 2, \<^verbatim>\<open>pBuf.set(chunk, 3)\<close>.
\<close>

definition pBuf :: "bool \<Rightarrow> nat \<Rightarrow> byte list \<Rightarrow> nat \<Rightarrow> byte list" where
  "pBuf fastMode s sd p =
     setUint16_le s @ [seq_byte (pkts fastMode sd) p] @ chunk fastMode sd p"

text \<open>
  The values the two loops run through: \<open>sectors\<close> lists \<^verbatim>\<open>sData\<close> for
  \<^verbatim>\<open>s = 0, ..., totalS - 1\<close>, \<open>sector_packets\<close> lists \<^verbatim>\<open>pBuf\<close> for
  \<^verbatim>\<open>p = 0, ..., pkts - 1\<close>. The reading side of a packet: its sequence byte is at
  offset 2 and its payload starts at offset 3.
\<close>

definition sectors :: "byte list \<Rightarrow> byte list list" where
  "sectors raw = map (sData raw) [0..<totalS raw]"

definition sector_packets :: "bool \<Rightarrow> byte list \<Rightarrow> nat \<Rightarrow> byte list list" where
  "sector_packets fastMode raw s =
     map (pBuf fastMode s (sData raw s)) [0..<pkts fastMode (sData raw s)]"

definition packet_seq :: "byte list \<Rightarrow> byte" where
  "packet_seq pkt = pkt ! 2"

definition packet_payload :: "byte list \<Rightarrow> byte list" where
  "packet_payload pkt = drop 3 pkt"

section \<open>Progress arithmetic: JavaScript numbers\<close>

text \<open>
  \<^verbatim>\<open>setProgress(Math.round(((s + 1) / totalS) * 100));\<close>
  The quotient and the product are IEEE 754 double operations: each yields the exact
  result rounded to the nearest number with a 53-bit significand, ties to the even
  significand. A double is modelled by the rational it denotes. All values that occur
  (quotients of two positive array counts, and their products with 100) lie in the normal
  range, so neither overflow nor subnormal numbers are modelled.
  \<open>binade x\<close> is the exponent \<open>e\<close> with \<open>2 ^ e \<le> x < 2 ^ (e + 1)\<close> for \<open>0 < x\<close>.
  \<^verbatim>\<open>Math.round\<close> is \<open>\<lfloor>x + 1 / 2\<rfloor>\<close>, computed exactly.
\<close>

fun bit_length :: "nat \<Rightarrow> nat" where
  "bit_length n = (if n = 0 then 0 else Suc (bit_length (n div 2)))"

definition binade :: "rat \<Rightarrow> int" where
  "binade x = (if 1 \<le> x then int (bit_length (nat \<lfloor>x\<rfloor>)) - 1
               else - int (bit_length (nat (\<lceil>1 / x\<rceil> - 1))))"

definition round_half_even :: "rat \<Rightarrow> int" where
  "round_half_even x =
     (let f = \<lfloor>x\<rfloor>; d = x - of_int f
      in if d < 1 / 2 then f else if 1 / 2 < d then f + 1 else if even f then f else f + 1)"

definition fl :: "rat \<Rightarrow> rat" where
  "fl x = (if x = 0 then 0
           else let e = binade \<bar>x\<bar> - 52
                in sgn x * of_int (round_half_even (\<bar>x\<bar> / (2 powi e))) * (2 powi e))"

definition Math_round :: "rat \<Rightarrow> int" where
  "Math_round x = \<lfloor>x + 1 / 2\<rfloor>"

text \<open>The argument of \<^verbatim>\<open>setProgress\<close> after sector \<open>s\<close> of \<open>n\<close> sectors.\<close>

definition js_progress :: "nat \<Rightarrow> nat \<Rightarrow> int" where
  "js_progress s n = Math_round (fl (fl (of_nat (s + 1) / of_nat n) * 100))"

section \<open>Application state, the acknowledgement registry and the environment\<close>

text \<open>
  The registry \<^verbatim>\<open>ackResolvers\<close> is an object indexed by the strings
  \<^verbatim>\<open>`cmd_${n}`\<close> and \<^verbatim>\<open>`sector_${n}`\<close>. The two prefixes differ and a number has
  one decimal rendering, so such a string is determined by, and determines, the prefix
  and the number: a key is that pair.
\<close>

datatype key = CmdKey nat | SectorKey nat

datatype conn_status = ConnIdle | ConnBusy | ConnReady

datatype ota_status = OtaIdle | OtaRunning | OtaSuccess | OtaFailed

text \<open>
  What the \<^verbatim>\<open>try\<close> block of \<^verbatim>\<open>runOta\<close> can throw: the three errors it constructs
  (\<^verbatim>\<open>'ACK Timeout'\<close>, \<^verbatim>\<open>'Rejected'\<close>, \<^verbatim>\<open>'Sector Error'\<close>) and whatever a
  characteristic write rejects with. \<open>message\<close> is \<^verbatim>\<open>e.message\<close>.
\<close>

datatype error = AckTimeout | Rejected | SectorError | TransportError string

fun message :: "error \<Rightarrow> string" where
  "message AckTimeout = ''ACK Timeout''"
| "message Rejected = ''Rejected''"
| "message SectorError = ''Sector Error''"
| "message (TransportError m) = m"

text \<open>
  The second argument of \<^verbatim>\<open>handleAck\<close>: \<^verbatim>\<open>'cmd'\<close> for the listener of the command
  characteristic, \<^verbatim>\<open>'sector'\<close> for the listener of the data characteristic.
\<close>

datatype prefix = Cmd | Sector

text \<open>
  What the browser can dispatch while \<^verbatim>\<open>runOta\<close> is suspended: a
  \<^verbatim>\<open>characteristicvaluechanged\<close> notification on one of the two characteristics, with
  the bytes of its \<^verbatim>\<open>DataView\<close>, or \<^verbatim>\<open>gattserverdisconnected\<close>.
\<close>

datatype event = Notification prefix "byte list" | GattDisconnected

text \<open>
  The effects of a run, in the order they happen: the two kinds of characteristic
  writes (a data write is tagged with the loop variables \<open>s\<close> and \<open>p\<close>), the
  registration of a waiter (key, number of the waiter, delay of its timer in
  milliseconds), a resolver settling its waiter (key, waiter, status), a timer firing
  (waiter), the 12 ms pause between packets, and the state setters.
\<close>

datatype action =
    WriteCmd "byte list"
  | WriteData nat nat "byte list"
  | Registered key nat nat
  | AckResolved key nat nat
  | TimerFired nat
  | Sleep nat
  | SetProgress int
  | SetOtaStatus ota_status
  | SetConnStatus conn_status

text \<open>
  The component's state: the refs \<^verbatim>\<open>ble\<close> (only whether it is set) and
  \<^verbatim>\<open>ackResolvers\<close>, and the React state the protocol touches. Every call of
  \<^verbatim>\<open>wait\<close> creates a promise; \<open>promises\<close> lists them in creation order, each pending
  (\<open>None\<close>), resolved with a status (\<open>Inr\<close>) or rejected (\<open>Inl\<close>). A resolver is
  identified by the position of the promise it settles. \<open>ota_file\<close> holds the bytes
  of the state variable \<^verbatim>\<open>file\<close>, if a file is chosen. \<open>trace\<close> records the effects.
  \<^verbatim>\<open>haptic\<close> only vibrates and is left out.
\<close>

record app =
  ble :: bool
  ackResolvers :: "key \<rightharpoonup> nat"
  promises :: "(error + nat) option list"
  connStatus :: conn_status
  otaStatus :: ota_status
  ota_file :: "byte list option"
  progress :: int
  logs :: "(string \<times> string) list"
  fastMode :: bool
  trace :: "action list"

text \<open>
  The environment of one run: whether a characteristic write rejects (and with which
  message), and the events dispatched while the run is suspended in
  \<^verbatim>\<open>await wait(key)\<close>, in order. Events that arrive at other times meet no pending
  waiter of the run and are not modelled.
\<close>

record env =
  cmdWriteError :: "byte list \<Rightarrow> string option"
  dataWriteError :: "nat \<Rightarrow> nat \<Rightarrow> string option"
  events :: "key \<Rightarrow> event list"

definition emit :: "action \<Rightarrow> app \<Rightarrow> app" where
  "emit a st = st\<lparr>trace := trace st @ [a]\<rparr>"

definition setProgress :: "int \<Rightarrow> app \<Rightarrow> app" where
  "setProgress n st = emit (SetProgress n) (st\<lparr>progress := n\<rparr>)"

definition setOtaStatus :: "ota_status \<Rightarrow> app \<Rightarrow> app" where
  "setOtaStatus v st = emit (SetOtaStatus v) (st\<lparr>otaStatus := v\<rparr>)"

definition setConnStatus :: "conn_status \<Rightarrow> app \<Rightarrow> app" where
  "setConnStatus v st = emit (SetConnStatus v) (st\<lparr>connStatus := v\<rparr>)"

text \<open>\<^verbatim>\<open>setLogs(prev => [{ msg, type }, ...prev.slice(0, 30)]);\<close>\<close>

definition addLog :: "string \<Rightarrow> string \<Rightarrow> app \<Rightarrow> app" where
  "addLog msg type st = st\<lparr>logs := (msg, type) # take 30 (logs st)\<rparr>"

text \<open>
  \<^verbatim>\<open>const wait = (key) => new Promise((res, rej) => {
    const t = setTimeout(() => rej(new Error('ACK Timeout')), 12000);
    ackResolvers.current[key] = (s) => { clearTimeout(t); res(s); };
  });\<close>
  The executor runs at once: it starts the timer and stores the resolver under the key
  by plain assignment, whatever was stored there before. It returns the new waiter.
\<close>

definition wait :: "key \<Rightarrow> app \<Rightarrow> nat \<times> app" where
  "wait k st =
     (let i = length (promises st)
      in (i, emit (Registered k i 12000)
               (st\<lparr>promises := promises st @ [None],
                   ackResolvers := (ackResolvers st)(k \<mapsto> i)\<rparr>)))"

text \<open>
  Calling the resolver stored under \<open>k\<close>, \<^verbatim>\<open>(s) => { clearTimeout(t); res(s); }\<close>:
  it settles its promise if that is still pending, and does nothing otherwise. Nothing
  is removed from the registry.
\<close>

definition call_resolver :: "key \<Rightarrow> nat \<Rightarrow> nat \<Rightarrow> app \<Rightarrow> app" where
  "call_resolver k i status st =
     (if i < length (promises st) \<and> promises st ! i = None
      then emit (AckResolved k i status) (st\<lparr>promises := (promises st)[i := Some (Inr status)]\<rparr>)
      else st)"

text \<open>
  The timer of waiter \<open>i\<close> firing, \<^verbatim>\<open>rej(new Error('ACK Timeout'))\<close>: it rejects the
  promise if that is still pending. Nothing is removed from the registry.
\<close>

definition timer_fired :: "nat \<Rightarrow> app \<Rightarrow> app" where
  "timer_fired i st =
     (if i < length (promises st) \<and> promises st ! i = None
      then emit (TimerFired i) (st\<lparr>promises := (promises st)[i := Some (Inl AckTimeout)]\<rparr>)
      else st)"

text \<open>
  \<^verbatim>\<open>v.getUint16(off, true)\<close>: little-endian; a read past the end of the view throws a
  \<^verbatim>\<open>RangeError\<close> (\<open>None\<close>).
\<close>

definition getUint16 :: "byte list \<Rightarrow> nat \<Rightarrow> nat option" where
  "getUint16 v off =
     (if off + 2 \<le> length v then Some (unat (v ! off) + 256 * unat (v ! (off + 1)))
      else None)"

text \<open>
  \<^verbatim>\<open>handleAck\<close>. On the command characteristic it reads the acknowledgement type, the
  acknowledged opcode and the status, and calls the resolver stored under
  \<^verbatim>\<open>cmd_<opcode>\<close> when the type is 3 and a resolver is stored; on the data
  characteristic it reads a sector index and a status and calls the resolver stored
  under \<^verbatim>\<open>sector_<index>\<close> when one is stored. A \<^verbatim>\<open>RangeError\<close> ends the listener
  with the state as it is.
\<close>

definition handleAck :: "byte list \<Rightarrow> prefix \<Rightarrow> app \<Rightarrow> app" where
  "handleAck v pre st =
     (case pre of
        Cmd \<Rightarrow>
          (case (getUint16 v 0, getUint16 v 2, getUint16 v 4) of
             (Some ackType, Some originalCmd, Some status) \<Rightarrow>
               (case ackResolvers st (CmdKey originalCmd) of
                  Some i \<Rightarrow> if ackType = 3 then call_resolver (CmdKey originalCmd) i status st
                            else st
                | None \<Rightarrow> st)
           | _ \<Rightarrow> st)
      | Sector \<Rightarrow>
          (case (getUint16 v 0, getUint16 v 2) of
             (Some sector, Some status) \<Rightarrow>
               (case ackResolvers st (SectorKey sector) of
                  Some i \<Rightarrow> call_resolver (SectorKey sector) i status st
                | None \<Rightarrow> st)
           | _ \<Rightarrow> st))"

text \<open>
  The listener registered in \<^verbatim>\<open>connect\<close>:
  \<^verbatim>\<open>device.addEventListener('gattserverdisconnected', () => {
    setConnStatus('idle'); setOtaStatus('idle'); haptic('error'); });\<close>
\<close>

definition gattserverdisconnected :: "app \<Rightarrow> app" where
  "gattserverdisconnected st = setOtaStatus OtaIdle (setConnStatus ConnIdle st)"

fun handle_event :: "event \<Rightarrow> app \<Rightarrow> app" where
  "handle_event (Notification pre v) st = handleAck v pre st"
| "handle_event GattDisconnected st = gattserverdisconnected st"

text \<open>
  The events dispatched while the caller is suspended on waiter \<open>i\<close>: they are handled
  in order for as long as the promise is pending; the caller resumes as soon as it is
  settled.
\<close>

fun dispatch :: "nat \<Rightarrow> event list \<Rightarrow> app \<Rightarrow> app" where
  "dispatch i [] st = st"
| "dispatch i (ev # evs) st =
     (if i < length (promises st) \<and> promises st ! i = None
      then dispatch i evs (handle_event ev st) else st)"

text \<open>
  \<^verbatim>\<open>await wait(key)\<close>: the waiter is registered, the events of the suspension are
  dispatched, and if none of them settles the promise the 12000 ms timer fires and
  rejects it. The result is the status (\<open>Inr\<close>) or the thrown error (\<open>Inl\<close>).
\<close>

definition await_wait :: "key \<Rightarrow> event list \<Rightarrow> app \<Rightarrow> (error + nat) \<times> app" where
  "await_wait k evs st =
     (case wait k st of
        (i, st1) \<Rightarrow>
          (let st2 = timer_fired i (dispatch i evs st1)
           in (case promises st2 ! i of
                 Some r \<Rightarrow> (r, st2)
               | None \<Rightarrow> (Inl AckTimeout, st2))))"

section \<open>The transfer: \<open>runOta\<close>\<close>

text \<open>\<^verbatim>\<open>dv.setUint32(2, file.size, true)\<close>: the size modulo \<open>2 ^ 32\<close>, low byte first.\<close>

definition setUint32_le :: "nat \<Rightarrow> byte list" where
  "setUint32_le v =
     [word_of_nat v, word_of_nat (v div 256), word_of_nat (v div 65536),
      word_of_nat (v div 16777216)]"

text \<open>The start command \<^verbatim>\<open>startBuf\<close>: opcode 1, then the file size.\<close>

definition startBuf :: "nat \<Rightarrow> byte list" where
  "startBuf n = setUint16_le 1 @ setUint32_le n"

text \<open>The finish command \<^verbatim>\<open>new Uint8Array([0x02, 0x00])\<close>.\<close>

definition finishBuf :: "byte list" where
  "finishBuf = [2, 0]"

text \<open>
  The inner loop, \<^verbatim>\<open>for (let p = 0; p < pkts; p++)\<close>, over the values of \<open>p\<close> still to
  come: the packet is built and written; a rejected write throws; in safe mode the loop
  then pauses 12 ms.
\<close>

fun send_packets ::
  "env \<Rightarrow> bool \<Rightarrow> nat \<Rightarrow> byte list \<Rightarrow> nat list \<Rightarrow> app \<Rightarrow> error option \<times> app" where
  "send_packets e fm s sd [] st = (None, st)"
| "send_packets e fm s sd (p # ps) st =
     (let st1 = emit (WriteData s p (pBuf fm s sd p)) st
      in case dataWriteError e s p of
           Some m \<Rightarrow> (Some (TransportError m), st1)
         | None \<Rightarrow> send_packets e fm s sd ps (if fm then st1 else emit (Sleep 12) st1))"

text \<open>
  The outer loop, \<^verbatim>\<open>for (let s = 0; s < totalS; s++)\<close>, over the values of \<open>s\<close> still
  to come: the packets of the sector, then
  \<^verbatim>\<open>if (await wait(`sector_${s}`) !== 0) throw new Error('Sector Error');\<close>
  and the progress update.
\<close>

fun send_sectors ::
  "env \<Rightarrow> bool \<Rightarrow> byte list \<Rightarrow> nat list \<Rightarrow> app \<Rightarrow> error option \<times> app" where
  "send_sectors e fm raw [] st = (None, st)"
| "send_sectors e fm raw (s # ss) st =
     (case send_packets e fm s (sData raw s) [0..<pkts fm (sData raw s)] st of
        (Some err, st1) \<Rightarrow> (Some err, st1)
      | (None, st1) \<Rightarrow>
          (case await_wait (SectorKey s) (events e (SectorKey s)) st1 of
             (Inl err, st2) \<Rightarrow> (Some err, st2)
           | (Inr status, st2) \<Rightarrow>
               if status \<noteq> 0 then (Some SectorError, st2)
               else send_sectors e fm raw ss (setProgress (js_progress s (totalS raw)) st2)))"

text \<open>
  The \<^verbatim>\<open>try\<close> block: the start command and
  \<^verbatim>\<open>if (await wait('cmd_1') !== 0) throw new Error('Rejected');\<close>, the sectors, the
  finish command and \<^verbatim>\<open>await wait('cmd_2'); setOtaStatus('success');\<close>. The status
  that \<^verbatim>\<open>wait('cmd_2')\<close> resolves with is not looked at. The result is the thrown
  error, if any. The file is taken as readable.
\<close>

definition runOta_try :: "env \<Rightarrow> byte list \<Rightarrow> app \<Rightarrow> error option \<times> app" where
  "runOta_try e raw st =
     (let st1 = emit (WriteCmd (startBuf (length raw))) st
      in case cmdWriteError e (startBuf (length raw)) of
           Some m \<Rightarrow> (Some (TransportError m), st1)
         | None \<Rightarrow>
             (case await_wait (CmdKey 1) (events e (CmdKey 1)) st1 of
                (Inl err, st2) \<Rightarrow> (Some err, st2)
              | (Inr status, st2) \<Rightarrow>
                  if status \<noteq> 0 then (Some Rejected, st2)
                  else
                    (case send_sectors e (fastMode st) raw [0..<totalS raw] st2 of
                       (Some err, st3) \<Rightarrow> (Some err, st3)
                     | (None, st3) \<Rightarrow>
                         (let st4 = emit (WriteCmd finishBuf) st3
                          in case cmdWriteError e finishBuf of
                               Some m \<Rightarrow> (Some (TransportError m), st4)
                             | None \<Rightarrow>
                                 (case await_wait (CmdKey 2) (events e (CmdKey 2)) st4 of
                                    (Inl err, st5) \<Rightarrow> (Some err, st5)
                                  | (Inr status, st5) \<Rightarrow>
                                      (None, setOtaStatus OtaSuccess st5))))))"

text \<open>
  \<^verbatim>\<open>runOta\<close>: \<^verbatim>\<open>if (!file || !ble.current) return;\<close>, then
  \<^verbatim>\<open>setOtaStatus('running'); setProgress(0);\<close>, the \<^verbatim>\<open>try\<close> block, and the
  \<^verbatim>\<open>catch\<close>: \<^verbatim>\<open>setOtaStatus('failed'); addLog('Error: ' + e.message, 'error');\<close>
\<close>

definition runOta :: "env \<Rightarrow> app \<Rightarrow> app" where
  "runOta e st =
     (case ota_file st of
        None \<Rightarrow> st
      | Some raw \<Rightarrow>
          if \<not> ble st then st
          else
            (case runOta_try e raw (setProgress 0 (setOtaStatus OtaRunning st)) of
               (None, st') \<Rightarrow> st'
             | (Some err, st') \<Rightarrow>
                 addLog (''Error: '' @ message err) ''error'' (setOtaStatus OtaFailed st')))"

text \<open>
  The component after \<^verbatim>\<open>connect\<close> has succeeded, the log has been cleared
  (\<^verbatim>\<open>setLogs([])\<close>, which empties it of the two entries \<^verbatim>\<open>connect\<close> wrote) and a
  file has been chosen: nothing registered, no promise created, an empty log.
\<close>

definition ready :: "bool \<Rightarrow> byte list \<Rightarrow> app" where
  "ready fm raw =
     \<lparr>ble = True, ackResolvers = Map.empty, promises = [], connStatus = ConnReady,
      otaStatus = OtaIdle, ota_file = Some raw, progress = 0, logs = [], fastMode = fm,
      trace = []\<rparr>"

text \<open>
  A device that accepts everything: every write succeeds, and each wait is answered by
  the acknowledgement of its key with status 0.
\<close>

definition ack_bytes :: "key \<Rightarrow> nat \<Rightarrow> event" where
  "ack_bytes k status =
     (case k of
        CmdKey c \<Rightarrow> Notification Cmd (setUint16_le 3 @ setUint16_le c @ setUint16_le status)
      | SectorKey n \<Rightarrow> Notification Sector (setUint16_le n @ setUint16_le status))"

definition accepting :: env where
  "accepting =
     \<lparr>cmdWriteError = (\<lambda>_. None), dataWriteError = (\<lambda>_ _. None),
      events = (\<lambda>k. [ack_bytes k 0])\<rparr>"

text \<open>
  The same device on a link that is lost while the run waits for the acknowledgement of
  \<open>k0\<close>: that wait sees the disconnection and nothing else.
\<close>

definition link_lost_at :: "key \<Rightarrow> env" where
  "link_lost_at k0 =
     \<lparr>cmdWriteError = (\<lambda>_. None), dataWriteError = (\<lambda>_ _. None),
      events = (\<lambda>k. if k = k0 then [GattDisconnected] else [ack_bytes k 0])\<rparr>"

text \<open>
  Projections of a trace: the data writes (sector, packet number and bytes) and the
  progress values, each in the order of the trace.
\<close>

fun data_writes :: "action list \<Rightarrow> (nat \<times> nat \<times> byte list) list" where
  "data_writes [] = []"
| "data_writes (WriteData s p b # tr) = (s, p, b) # data_writes tr"
| "data_writes (_ # tr) = data_writes tr"

fun progress_events :: "action list \<Rightarrow> int list" where
  "progress_events [] = []"
| "progress_events (SetProgress n # tr) = n # progress_events tr"
| "progress_events (_ # tr) = progress_events tr"

text \<open>
  Reading a trace. \<open>is_ack k status\<close> holds of the action in which the resolver stored
  under \<open>k\<close> settles its waiter with \<open>status\<close>. \<open>acks_of\<close> is the sector whose
  acknowledgement with status 0 an action delivers, if any. \<open>ordered A tr\<close> checks a
  trace from left to right, \<open>A\<close> being the sectors acknowledged with status 0 so far:
  a data write of sector 0 is always in order, a data write of a later sector only when
  the sector before it is among the acknowledged ones. \<open>sector_writes\<close> lists the data
  writes of one sector, as \<open>data_writes\<close> reports them.
\<close>

fun is_ack :: "key \<Rightarrow> nat \<Rightarrow> action \<Rightarrow> bool" where
  "is_ack k status (AckResolved k' i status') = (k' = k \<and> status' = status)"
| "is_ack k status _ = False"

text \<open>
  Every resolver stored in the registry belongs to a promise that has been created.
  This holds of the component as it starts and is kept by every operation.
\<close>

definition registry_ok :: "app \<Rightarrow> bool" where
  "registry_ok st = (\<forall>i \<in> ran (ackResolvers st). i < length (promises st))"

fun acks_of :: "action \<Rightarrow> nat set" where
  "acks_of (AckResolved (SectorKey s) i status) = (if status = 0 then {s} else {})"
| "acks_of _ = {}"

fun ordered :: "nat set \<Rightarrow> action list \<Rightarrow> bool" where
  "ordered A [] = True"
| "ordered A (WriteData s p b # tr) = ((s = 0 \<or> s - 1 \<in> A) \<and> ordered A tr)"
| "ordered A (a # tr) = ordered (A \<union> acks_of a) tr"

definition sector_writes :: "bool \<Rightarrow> byte list \<Rightarrow> nat \<Rightarrow> (nat \<times> nat \<times> byte list) list" where
  "sector_writes fm raw s =
     map (\<lambda>p. (s, p, pBuf fm s (sData raw s) p)) [0..<pkts fm (sData raw s)]"

text \<open>
  The progress monitor: \<open>reports n A c tr\<close> holds when the progress reports of \<open>tr\<close>
  are, in order, those of the sectors \<open>c\<close>, \<open>c + 1\<close>, ... of an image of \<open>n\<close> sectors,
  each of them the value \<open>js_progress\<close> gives for its sector and each made when its
  sector is among \<open>A\<close> or has been acknowledged with status 0 earlier in \<open>tr\<close>.
\<close>

fun reports :: "nat \<Rightarrow> nat set \<Rightarrow> nat \<Rightarrow> action list \<Rightarrow> bool" where
  "reports n A c [] = True"
| "reports n A c (SetProgress v # tr) =
     (c \<in> A \<and> v = js_progress c n \<and> reports n A (Suc c) tr)"
| "reports n A c (a # tr) = reports n (A \<union> acks_of a) c tr"

section \<open>Framing lemmas\<close>

lemma ceil_div_real:
  assumes "0 < b"
  shows "ceil_div a b = nat \<lceil>real a / real b\<rceil>"
proof (cases "a mod b = 0")
  case True
  then have "b dvd a" by (simp add: dvd_eq_mod_eq_0)
  then have "real a / real b = real (a div b)"
    by (simp add: real_of_nat_div)
  then show ?thesis
    using True by (simp add: ceil_div_def)
next
  case False
  have lo: "real (a div b) < real a / real b"
  proof -
    have "a div b * b < a"
      using False by (metis le_neq_implies_less div_times_less_eq_dividend
          mod_mult_self2_is_0)
    then have "real (a div b) * real b < real a"
      by (metis of_nat_less_iff of_nat_mult)
    then show ?thesis
      using assms by (simp add: pos_less_divide_eq)
  qed
  have hi: "real a / real b \<le> real (a div b) + 1"
  proof -
    have "a < (a div b + 1) * b"
      using assms by (metis Suc_eq_plus1 dividend_less_div_times mult.commute mult_Suc)
    then have "real a < (real (a div b) + 1) * real b"
      by (metis of_nat_less_iff of_nat_mult of_nat_add of_nat_1)
    then show ?thesis
      using assms by (simp add: pos_divide_le_eq)
  qed
  have "\<lceil>real a / real b\<rceil> = int (a div b) + 1"
    using lo hi by (intro ceiling_unique) simp_all
  then show ?thesis
    using False by (simp add: ceil_div_def)
qed

lemma ceil_div_zero_iff: "0 < b \<Longrightarrow> ceil_div a b = 0 \<longleftrightarrow> a = 0"
  by (cases "a = 0") (auto simp: ceil_div_def div_eq_0_iff)

lemma ceil_div_covers: "0 < b \<Longrightarrow> a \<le> ceil_div a b * b"
proof -
  assume b: "0 < b"
  have e: "a = a div b * b + a mod b" by simp
  have m: "a mod b < b" using b by simp
  show ?thesis
  proof (cases "a mod b = 0")
    case True
    then show ?thesis using e by (simp add: ceil_div_def)
  next
    case False
    have "a < a div b * b + b" using e m by linarith
    then show ?thesis using False by (simp add: ceil_div_def)
  qed
qed

lemma ceil_div_tight: "0 < b \<Longrightarrow> 0 < a \<Longrightarrow> (ceil_div a b - 1) * b < a"
proof -
  assume b: "0 < b" and a: "0 < a"
  have e: "a = a div b * b + a mod b" by simp
  show ?thesis
  proof (cases "a mod b = 0")
    case True
    then have "a = a div b * b" using e by simp
    moreover from this a have "0 < a div b" by (cases "a div b") auto
    ultimately have "(a div b - 1) * b < a"
      using b by (metis diff_less less_numeral_extra(1) mult_less_cancel2)
    then show ?thesis using True by (simp add: ceil_div_def)
  next
    case False
    then have "a div b * b < a" using e by linarith
    then show ?thesis using False by (simp add: ceil_div_def)
  qed
qed

lemma ceil_div_mono: "a \<le> a' \<Longrightarrow> ceil_div a b \<le> ceil_div a' b"
proof (cases "b = 0")
  case True
  assume "a \<le> a'"
  then show ?thesis using True by (auto simp: ceil_div_def)
next
  case False
  assume le: "a \<le> a'"
  have d: "a div b \<le> a' div b" using le by (rule div_le_mono)
  show ?thesis
  proof (cases "a div b = a' div b")
    case True
    have "a' mod b = 0 \<Longrightarrow> a mod b = 0"
    proof -
      assume z: "a' mod b = 0"
      have "a = a div b * b + a mod b" "a' = a' div b * b + a' mod b" by simp_all
      with True z le show "a mod b = 0" by (metis add.right_neutral add_le_cancel_left le_zero_eq)
    qed
    then show ?thesis using True by (auto simp: ceil_div_def)
  next
    case False
    then have "a div b < a' div b" using d by simp
    then show ?thesis by (auto simp: ceil_div_def)
  qed
qed

lemma concat_slices:
  "concat (map (\<lambda>i. slice xs (i * n) ((i + 1) * n)) [0..<k]) = take (k * n) xs"
proof (induction k)
  case 0
  show ?case by simp
next
  case (Suc k)
  have "take (k * n) xs @ take n (drop (k * n) xs) = take (k * n + n) xs"
    by (simp add: take_add)
  then show ?case
    using Suc by (simp add: slice_def add.commute)
qed

lemma length_slice:
  "length (slice xs (i * n) ((i + 1) * n)) = min n (length xs - i * n)"
  by (simp add: slice_def)

lemma totalS_real: "totalS raw = nat \<lceil>real (length raw) / real SECTOR_SIZE\<rceil>"
  by (simp add: totalS_def SECTOR_SIZE_def ceil_div_real)

lemma length_sectors: "length (sectors raw) = totalS raw"
  by (simp add: sectors_def)

lemma concat_sectors: "concat (sectors raw) = raw"
proof -
  have "length raw \<le> totalS raw * SECTOR_SIZE"
    unfolding totalS_def by (rule ceil_div_covers) (simp add: SECTOR_SIZE_def)
  moreover have "sData raw = (\<lambda>s. slice raw (s * SECTOR_SIZE) ((s + 1) * SECTOR_SIZE))"
    by (rule ext) (simp only: sData_def)
  ultimately show ?thesis
    by (simp only: sectors_def concat_slices take_all)
qed

lemma length_sData: "length (sData raw s) = min SECTOR_SIZE (length raw - s * SECTOR_SIZE)"
  unfolding sData_def by (rule length_slice)

lemma sData_nonempty: "s < totalS raw \<Longrightarrow> 0 < length (sData raw s)"
proof -
  assume s: "s < totalS raw"
  then have "0 < length raw"
    by (cases "length raw = 0") (simp_all add: totalS_def ceil_div_def)
  then have "(totalS raw - 1) * SECTOR_SIZE < length raw"
    unfolding totalS_def by (intro ceil_div_tight) (simp_all add: SECTOR_SIZE_def)
  moreover have "s * SECTOR_SIZE \<le> (totalS raw - 1) * SECTOR_SIZE"
    using s by (intro mult_le_mono1) simp
  ultimately show ?thesis
    by (simp add: length_sData SECTOR_SIZE_def)
qed

lemma sData_full: "s + 1 < totalS raw \<Longrightarrow> length (sData raw s) = SECTOR_SIZE"
proof -
  assume s: "s + 1 < totalS raw"
  then have "0 < length raw"
    by (cases "length raw = 0") (simp_all add: totalS_def ceil_div_def)
  then have "(totalS raw - 1) * SECTOR_SIZE < length raw"
    unfolding totalS_def by (intro ceil_div_tight) (simp_all add: SECTOR_SIZE_def)
  moreover have "(s + 1) * SECTOR_SIZE \<le> (totalS raw - 1) * SECTOR_SIZE"
    using s by (intro mult_le_mono1) simp
  ultimately show ?thesis
    by (simp add: length_sData SECTOR_SIZE_def)
qed

lemma sData_le: "length (sData raw s) \<le> SECTOR_SIZE"
  by (simp add: length_sData)

section \<open>Sectors of the image\<close>

text \<open>
  Claim C3. The sectors the outer loop cuts from an image: their number is the ceiling of
  the image length over 4096, their lengths add up to the image length (they are the
  image, cut in order), an empty image has none, every sector has between 1 and 4096
  bytes, and every sector but the last has exactly 4096.
\<close>

theorem sectors_partition:
  "length (sectors raw) = nat \<lceil>real (length raw) / real SECTOR_SIZE\<rceil>
   \<and> sum_list (map length (sectors raw)) = length raw
   \<and> concat (sectors raw) = raw
   \<and> (length raw = 0 \<longrightarrow> sectors raw = [])
   \<and> (\<forall>i < length (sectors raw).
        0 < length (sectors raw ! i) \<and> length (sectors raw ! i) \<le> SECTOR_SIZE
        \<and> (i + 1 < length (sectors raw) \<longrightarrow> length (sectors raw ! i) = SECTOR_SIZE))"
proof -
  have a: "length (sectors raw) = nat \<lceil>real (length raw) / real SECTOR_SIZE\<rceil>"
    by (simp add: length_sectors totalS_real)
  have "sum_list (map length (sectors raw)) = length (concat (sectors raw))"
    by (simp add: length_concat)
  then have b: "sum_list (map length (sectors raw)) = length raw"
    by (simp add: concat_sectors)
  have c: "length raw = 0 \<longrightarrow> sectors raw = []"
    by (simp add: sectors_def totalS_def ceil_div_def)
  have d: "\<forall>i < length (sectors raw).
        0 < length (sectors raw ! i) \<and> length (sectors raw ! i) \<le> SECTOR_SIZE
        \<and> (i + 1 < length (sectors raw) \<longrightarrow> length (sectors raw ! i) = SECTOR_SIZE)"
    using sData_nonempty sData_full sData_le by (simp add: sectors_def)
  show ?thesis using a b c d concat_sectors by blast
qed

theorem sectors_partition_witness:
  "length (sectors (replicate 5000 0)) = 2
   \<and> sum_list (map length (sectors (replicate 5000 0))) = 5000
   \<and> length (sectors (replicate 5000 0) ! 0) = 4096
   \<and> sectors [] = []"
proof -
  have n: "nat \<lceil>real (length (replicate 5000 (0::byte))) / real SECTOR_SIZE\<rceil> = 2"
    by (simp add: SECTOR_SIZE_def)
  show ?thesis
    using sectors_partition [of "replicate 5000 0"] sectors_partition [of "[]"] n
    by (simp add: SECTOR_SIZE_def)
qed

lemma pSize_pos: "0 < pSize fm"
  by (simp add: pSize_def)

lemma pkts_le: "pkts fm (sData raw s) \<le> 205"
proof -
  have "ceil_div (length (sData raw s)) (pSize fm) \<le> ceil_div SECTOR_SIZE (pSize fm)"
    by (rule ceil_div_mono) (rule sData_le)
  also have "\<dots> \<le> 205"
    by (simp add: ceil_div_def SECTOR_SIZE_def pSize_def)
  finally show ?thesis by (simp add: pkts_def)
qed

lemma pkts_pos: "s < totalS raw \<Longrightarrow> 0 < pkts fm (sData raw s)"
  using sData_nonempty [of s raw] ceil_div_zero_iff [of "pSize fm" "length (sData raw s)"]
  by (simp add: pkts_def pSize_pos)

lemma concat_chunks: "concat (map (chunk fm sd) [0..<pkts fm sd]) = sd"
proof -
  have "length sd \<le> pkts fm sd * pSize fm"
    unfolding pkts_def by (rule ceil_div_covers) (rule pSize_pos)
  moreover have "chunk fm sd = (\<lambda>p. slice sd (p * pSize fm) ((p + 1) * pSize fm))"
    by (rule ext) (simp only: chunk_def)
  ultimately show ?thesis
    by (simp only: concat_slices take_all)
qed

lemma packet_payload_pBuf: "packet_payload (pBuf fm s sd p) = chunk fm sd p"
  by (simp add: packet_payload_def pBuf_def setUint16_le_def)

lemma packet_seq_pBuf: "packet_seq (pBuf fm s sd p) = seq_byte (pkts fm sd) p"
  by (simp add: packet_seq_def pBuf_def setUint16_le_def)

lemma sector_writes_bytes:
  "map (\<lambda>(s, p, b). b) (sector_writes fm raw s) = sector_packets fm raw s"
  by (simp add: sector_writes_def sector_packets_def)

lemma unat_seq_byte:
  "n \<le> 205 \<Longrightarrow> p < n \<Longrightarrow> unat (seq_byte n p) = (if p = n - 1 then 255 else p)"
  by (simp add: seq_byte_def unat_of_nat)

lemma seq_byte_sentinel:
  "n \<le> 205 \<Longrightarrow> p < n \<Longrightarrow> seq_byte n p = 255 \<longleftrightarrow> p = n - 1"
proof -
  assume n: "n \<le> 205" and p: "p < n"
  have "seq_byte n p = 255 \<longleftrightarrow> unat (seq_byte n p) = unat (255 :: byte)"
    by (simp only: word_unat_eq_iff)
  also have "\<dots> \<longleftrightarrow> p = n - 1"
    using n p by (simp add: unat_seq_byte)
  finally show ?thesis .
qed

section \<open>Packets of a sector\<close>

text \<open>
  Claim C2. For every sector of the image, in either mode: the payloads of its packets,
  concatenated in the order they are written, are the sector; there is at least one
  packet; the last one carries the sequence byte 0xFF and it is the only one that does;
  each earlier packet carries its position 0, 1, 2, ... in the sequence byte.
\<close>

theorem sector_packets_reconstruct:
  assumes "s < totalS raw"
  shows "concat (map packet_payload (sector_packets fm raw s)) = sData raw s
    \<and> sector_packets fm raw s \<noteq> []
    \<and> packet_seq (last (sector_packets fm raw s)) = 255
    \<and> length (filter (\<lambda>pkt. packet_seq pkt = 255) (sector_packets fm raw s)) = 1
    \<and> (\<forall>i < length (sector_packets fm raw s).
          (packet_seq (sector_packets fm raw s ! i) = 255
             \<longleftrightarrow> i = length (sector_packets fm raw s) - 1)
          \<and> (i < length (sector_packets fm raw s) - 1
             \<longrightarrow> unat (packet_seq (sector_packets fm raw s ! i)) = i))"
proof -
  let ?sd = "sData raw s"
  let ?n = "pkts fm ?sd"
  let ?ps = "sector_packets fm raw s"
  have n: "?n \<le> 205" by (rule pkts_le)
  have pos: "0 < ?n" using assms by (rule pkts_pos)
  have len: "length ?ps = ?n" by (simp add: sector_packets_def)
  have nth: "\<And>i. i < ?n \<Longrightarrow> ?ps ! i = pBuf fm s ?sd i"
    by (simp add: sector_packets_def)
  have "map packet_payload ?ps = map (chunk fm ?sd) [0..<?n]"
    by (simp add: sector_packets_def packet_payload_pBuf)
  then have a: "concat (map packet_payload ?ps) = ?sd"
    by (simp only: concat_chunks)
  have b: "?ps \<noteq> []" using pos len by auto
  have "last ?ps = ?ps ! (?n - 1)"
    using b len by (simp add: last_conv_nth)
  then have c: "packet_seq (last ?ps) = 255"
    using pos n by (simp add: nth packet_seq_pBuf seq_byte_sentinel)
  have e: "\<forall>i < length ?ps.
          (packet_seq (?ps ! i) = 255 \<longleftrightarrow> i = length ?ps - 1)
          \<and> (i < length ?ps - 1 \<longrightarrow> unat (packet_seq (?ps ! i)) = i)"
    using n by (auto simp: len nth packet_seq_pBuf seq_byte_sentinel unat_seq_byte)
  have "filter (\<lambda>pkt. packet_seq pkt = 255) ?ps
      = map (pBuf fm s ?sd) (filter (\<lambda>i. seq_byte ?n i = 255) [0..<?n])"
    by (simp add: sector_packets_def filter_map comp_def packet_seq_pBuf)
  also have "filter (\<lambda>i. seq_byte ?n i = 255) [0..<?n] = filter (\<lambda>i. i = ?n - 1) [0..<?n]"
    using n by (intro filter_cong) (simp_all add: seq_byte_sentinel)
  also have "\<dots> = [?n - 1]"
  proof -
    have "[0..<?n] = [0..<?n - 1] @ [?n - 1]"
      using pos by (metis Suc_diff_1 upt_Suc_append zero_le)
    then show ?thesis by (simp del: upt_Suc)
  qed
  finally have d: "length (filter (\<lambda>pkt. packet_seq pkt = 255) ?ps) = 1"
    by simp
  show ?thesis using a b c d e by blast
qed

theorem sector_packets_reconstruct_witness:
  "0 < totalS (replicate 45 1)
   \<and> concat (map packet_payload (sector_packets False (replicate 45 1) 0)) = replicate 45 1
   \<and> map packet_seq (sector_packets False (replicate 45 1) 0) = [0, 1, 255]
   \<and> packet_seq (last (sector_packets False (replicate 45 1) 0)) = 255
   \<and> length (filter (\<lambda>pkt. packet_seq pkt = 255) (sector_packets False (replicate 45 1) 0)) = 1"
proof -
  have h: "0 < totalS (replicate 45 1)"
    by (simp add: totalS_def ceil_div_def SECTOR_SIZE_def)
  have sd: "sData (replicate 45 1) 0 = replicate 45 1"
    by (simp add: sData_def slice_def SECTOR_SIZE_def)
  have n: "pkts False (replicate 45 1) = 3"
    by (simp add: pkts_def ceil_div_def pSize_def)
  have sq: "map packet_seq (sector_packets False (replicate 45 1) 0) = [0, 1, 255]"
  proof -
    have u: "[0..<3] = [0, 1, 2]" by code_simp
    show ?thesis
      by (simp add: sector_packets_def sd n u packet_seq_pBuf seq_byte_def)
  qed
  show ?thesis
    using sector_packets_reconstruct [OF h, of False] h sd sq by simp
qed

text \<open>
  Claim C10. The payload size is 20 or 244 and a sector has at most 4096 bytes, so a
  sector has at most \<open>ceil (4096 / 20) = 205\<close> packets. The value stored in the sequence
  byte is therefore read back unchanged (no wrap-around modulo 256): 255 for the last
  packet and the position \<open>p \<le> 204\<close> for every other packet, which is never 0xFF.
\<close>

theorem packet_count_bound:
  "pSize fm \<in> {20, 244}
   \<and> ceil_div SECTOR_SIZE 20 = 205
   \<and> pkts fm (sData raw s) \<le> 205
   \<and> (\<forall>p < pkts fm (sData raw s).
        unat (seq_byte (pkts fm (sData raw s)) p)
          = (if p = pkts fm (sData raw s) - 1 then 255 else p)
        \<and> (p \<noteq> pkts fm (sData raw s) - 1
             \<longrightarrow> p \<le> 204 \<and> seq_byte (pkts fm (sData raw s)) p \<noteq> 255))"
proof -
  let ?n = "pkts fm (sData raw s)"
  have n: "?n \<le> 205" by (rule pkts_le)
  have a: "pSize fm \<in> {20, 244}" by (simp add: pSize_def)
  have b: "ceil_div SECTOR_SIZE 20 = 205" by (simp add: ceil_div_def SECTOR_SIZE_def)
  have c: "\<forall>p < ?n. unat (seq_byte ?n p) = (if p = ?n - 1 then 255 else p)
        \<and> (p \<noteq> ?n - 1 \<longrightarrow> p \<le> 204 \<and> seq_byte ?n p \<noteq> 255)"
    using n by (auto simp: unat_seq_byte seq_byte_sentinel)
  show ?thesis using n a b c by blast
qed

theorem packet_count_bound_witness:
  "pkts False (sData (replicate 5000 0) 0) = 205
   \<and> unat (seq_byte 205 204) = 255
   \<and> unat (seq_byte 205 203) = 203
   \<and> seq_byte 205 203 \<noteq> 255"
proof -
  have n: "pkts False (sData (replicate 5000 0) 0) = 205"
    by (simp add: pkts_def length_sData SECTOR_SIZE_def ceil_div_def pSize_def)
  have a: "p < 205 \<Longrightarrow> unat (seq_byte 205 p) = (if p = 204 then 255 else p)
        \<and> (p \<noteq> 204 \<longrightarrow> p \<le> 204 \<and> seq_byte 205 p \<noteq> 255)" for p
    using packet_count_bound [of False "replicate 5000 0" 0] unfolding n by simp
  have "unat (seq_byte 205 204) = 255 \<and> unat (seq_byte 205 203) = 203
      \<and> seq_byte 205 203 \<noteq> 255"
    using a [of 204] a [of 203] by simp
  then show ?thesis using n by simp
qed

section \<open>The state after each operation\<close>

lemma emit_fields [simp]:
  "trace (emit a st) = trace st @ [a]"
  "ackResolvers (emit a st) = ackResolvers st"
  "promises (emit a st) = promises st"
  "progress (emit a st) = progress st"
  "otaStatus (emit a st) = otaStatus st"
  "connStatus (emit a st) = connStatus st"
  "fastMode (emit a st) = fastMode st"
  "ble (emit a st) = ble st"
  "ota_file (emit a st) = ota_file st"
  "logs (emit a st) = logs st"
  by (simp_all add: emit_def)

lemma setProgress_fields [simp]:
  "trace (setProgress n st) = trace st @ [SetProgress n]"
  "ackResolvers (setProgress n st) = ackResolvers st"
  "promises (setProgress n st) = promises st"
  "progress (setProgress n st) = n"
  "otaStatus (setProgress n st) = otaStatus st"
  "connStatus (setProgress n st) = connStatus st"
  "fastMode (setProgress n st) = fastMode st"
  "ble (setProgress n st) = ble st"
  "ota_file (setProgress n st) = ota_file st"
  "logs (setProgress n st) = logs st"
  by (simp_all add: setProgress_def)

lemma setOtaStatus_fields [simp]:
  "trace (setOtaStatus v st) = trace st @ [SetOtaStatus v]"
  "ackResolvers (setOtaStatus v st) = ackResolvers st"
  "promises (setOtaStatus v st) = promises st"
  "progress (setOtaStatus v st) = progress st"
  "otaStatus (setOtaStatus v st) = v"
  "connStatus (setOtaStatus v st) = connStatus st"
  "fastMode (setOtaStatus v st) = fastMode st"
  "ble (setOtaStatus v st) = ble st"
  "ota_file (setOtaStatus v st) = ota_file st"
  "logs (setOtaStatus v st) = logs st"
  by (simp_all add: setOtaStatus_def)

lemma setConnStatus_fields [simp]:
  "trace (setConnStatus v st) = trace st @ [SetConnStatus v]"
  "ackResolvers (setConnStatus v st) = ackResolvers st"
  "promises (setConnStatus v st) = promises st"
  "progress (setConnStatus v st) = progress st"
  "otaStatus (setConnStatus v st) = otaStatus st"
  "connStatus (setConnStatus v st) = v"
  "fastMode (setConnStatus v st) = fastMode st"
  "ble (setConnStatus v st) = ble st"
  "ota_file (setConnStatus v st) = ota_file st"
  "logs (setConnStatus v st) = logs st"
  by (simp_all add: setConnStatus_def)

lemma addLog_fields [simp]:
  "trace (addLog m t st) = trace st"
  "ackResolvers (addLog m t st) = ackResolvers st"
  "promises (addLog m t st) = promises st"
  "progress (addLog m t st) = progress st"
  "otaStatus (addLog m t st) = otaStatus st"
  "connStatus (addLog m t st) = connStatus st"
  "fastMode (addLog m t st) = fastMode st"
  "ble (addLog m t st) = ble st"
  "ota_file (addLog m t st) = ota_file st"
  "logs (addLog m t st) = (m, t) # take 30 (logs st)"
  by (simp_all add: addLog_def)

lemma wait_fields [simp]:
  "fst (wait k st) = length (promises st)"
  "trace (snd (wait k st)) = trace st @ [Registered k (length (promises st)) 12000]"
  "ackResolvers (snd (wait k st)) = (ackResolvers st)(k \<mapsto> length (promises st))"
  "promises (snd (wait k st)) = promises st @ [None]"
  "progress (snd (wait k st)) = progress st"
  "otaStatus (snd (wait k st)) = otaStatus st"
  "connStatus (snd (wait k st)) = connStatus st"
  "fastMode (snd (wait k st)) = fastMode st"
  "ble (snd (wait k st)) = ble st"
  "ota_file (snd (wait k st)) = ota_file st"
  "logs (snd (wait k st)) = logs st"
  by (simp_all add: wait_def Let_def)

text \<open>The part of the state an event handler or a timer can change.\<close>

lemma call_resolver_frame [simp]:
  "ackResolvers (call_resolver k i s st) = ackResolvers st"
  "length (promises (call_resolver k i s st)) = length (promises st)"
  "progress (call_resolver k i s st) = progress st"
  "fastMode (call_resolver k i s st) = fastMode st"
  "ble (call_resolver k i s st) = ble st"
  "ota_file (call_resolver k i s st) = ota_file st"
  "logs (call_resolver k i s st) = logs st"
  by (simp_all add: call_resolver_def)

lemma timer_fired_frame [simp]:
  "ackResolvers (timer_fired i st) = ackResolvers st"
  "length (promises (timer_fired i st)) = length (promises st)"
  "progress (timer_fired i st) = progress st"
  "fastMode (timer_fired i st) = fastMode st"
  "ble (timer_fired i st) = ble st"
  "ota_file (timer_fired i st) = ota_file st"
  "logs (timer_fired i st) = logs st"
  by (simp_all add: timer_fired_def)

lemma handleAck_frame [simp]:
  "ackResolvers (handleAck v pre st) = ackResolvers st"
  "length (promises (handleAck v pre st)) = length (promises st)"
  "progress (handleAck v pre st) = progress st"
  "fastMode (handleAck v pre st) = fastMode st"
  "ble (handleAck v pre st) = ble st"
  "ota_file (handleAck v pre st) = ota_file st"
  "logs (handleAck v pre st) = logs st"
  by (simp_all add: handleAck_def split: prefix.splits option.splits)

lemma handle_event_frame [simp]:
  "ackResolvers (handle_event ev st) = ackResolvers st"
  "length (promises (handle_event ev st)) = length (promises st)"
  "progress (handle_event ev st) = progress st"
  "fastMode (handle_event ev st) = fastMode st"
  "ble (handle_event ev st) = ble st"
  "ota_file (handle_event ev st) = ota_file st"
  "logs (handle_event ev st) = logs st"
  by (cases ev; simp add: gattserverdisconnected_def)+

lemma dispatch_frame [simp]:
  "ackResolvers (dispatch i evs st) = ackResolvers st"
  "length (promises (dispatch i evs st)) = length (promises st)"
  "progress (dispatch i evs st) = progress st"
  "fastMode (dispatch i evs st) = fastMode st"
  "ble (dispatch i evs st) = ble st"
  "ota_file (dispatch i evs st) = ota_file st"
  "logs (dispatch i evs st) = logs st"
  by (induction evs arbitrary: st; simp)+

lemma data_writes_append [simp]: "data_writes (xs @ ys) = data_writes xs @ data_writes ys"
  by (induction xs rule: data_writes.induct) simp_all

lemma progress_events_append [simp]:
  "progress_events (xs @ ys) = progress_events xs @ progress_events ys"
  by (induction xs rule: progress_events.induct) simp_all

lemma call_resolver_trace:
  "\<exists>tr. trace (call_resolver k j s st) = trace st @ tr
     \<and> data_writes tr = [] \<and> progress_events tr = []
     \<and> (\<forall>r. i < length (promises st) \<and> promises st ! i = None
            \<and> promises (call_resolver k j s st) ! i = Some r
          \<longrightarrow> r = Inr s \<and> j = i \<and> list_ex (is_ack k s) tr)"
  by (cases "j = i") (auto simp: call_resolver_def)

lemma handleAck_cases:
  "handleAck v pre st = st
   \<or> (\<exists>k j s. ackResolvers st k = Some j \<and> handleAck v pre st = call_resolver k j s st)"
  by (auto simp: handleAck_def split: prefix.split option.split)

lemma handleAck_trace:
  "\<exists>tr. trace (handleAck v pre st) = trace st @ tr
     \<and> data_writes tr = [] \<and> progress_events tr = []
     \<and> (\<forall>r. i < length (promises st) \<and> promises st ! i = None
            \<and> promises (handleAck v pre st) ! i = Some r
          \<longrightarrow> (\<exists>k s. r = Inr s \<and> ackResolvers st k = Some i \<and> list_ex (is_ack k s) tr))"
proof -
  consider "handleAck v pre st = st"
    | k j s where "ackResolvers st k = Some j" "handleAck v pre st = call_resolver k j s st"
    using handleAck_cases by blast
  then show ?thesis
  proof cases
    case 1
    then show ?thesis by auto
  next
    case 2
    show ?thesis
      unfolding 2(2) using call_resolver_trace [of k j s st i] 2(1) by blast
  qed
qed

lemma handle_event_trace:
  "\<exists>tr. trace (handle_event ev st) = trace st @ tr
     \<and> data_writes tr = [] \<and> progress_events tr = []
     \<and> (\<forall>r. i < length (promises st) \<and> promises st ! i = None
            \<and> promises (handle_event ev st) ! i = Some r
          \<longrightarrow> (\<exists>k s. r = Inr s \<and> ackResolvers st k = Some i \<and> list_ex (is_ack k s) tr))"
proof (cases ev)
  case (Notification pre v)
  then show ?thesis using handleAck_trace [of v pre st i] by simp
next
  case GattDisconnected
  then show ?thesis by (auto simp: gattserverdisconnected_def)
qed

lemma dispatch_settled:
  "\<not> (i < length (promises st) \<and> promises st ! i = None) \<Longrightarrow> dispatch i evs st = st"
  by (cases evs) auto

lemma dispatch_trace:
  "\<exists>tr. trace (dispatch i evs st) = trace st @ tr
     \<and> data_writes tr = [] \<and> progress_events tr = []
     \<and> (\<forall>r. i < length (promises st) \<and> promises st ! i = None
            \<and> promises (dispatch i evs st) ! i = Some r
          \<longrightarrow> (\<exists>k s. r = Inr s \<and> ackResolvers st k = Some i \<and> list_ex (is_ack k s) tr))"
proof (induction evs arbitrary: st)
  case Nil
  show ?case by auto
next
  case (Cons ev evs)
  show ?case
  proof (cases "i < length (promises st) \<and> promises st ! i = None")
    case False
    then show ?thesis by auto
  next
    case True
    let ?st1 = "handle_event ev st"
    obtain tr1 where t1: "trace ?st1 = trace st @ tr1" "data_writes tr1 = []"
      "progress_events tr1 = []"
      and r1: "\<And>r. promises ?st1 ! i = Some r \<Longrightarrow>
          \<exists>k s. r = Inr s \<and> ackResolvers st k = Some i \<and> list_ex (is_ack k s) tr1"
      using handle_event_trace [of ev st i] True by blast
    obtain tr2 where t2: "trace (dispatch i evs ?st1) = trace ?st1 @ tr2" "data_writes tr2 = []"
      "progress_events tr2 = []"
      and r2: "\<And>r. promises ?st1 ! i = None \<Longrightarrow> promises (dispatch i evs ?st1) ! i = Some r \<Longrightarrow>
          \<exists>k s. r = Inr s \<and> ackResolvers st k = Some i \<and> list_ex (is_ack k s) tr2"
      using Cons.IH [of ?st1] True by auto
    have step: "dispatch i (ev # evs) st = dispatch i evs ?st1"
      using True by simp
    have "\<exists>k s. r = Inr s \<and> ackResolvers st k = Some i \<and> list_ex (is_ack k s) (tr1 @ tr2)"
      if "promises (dispatch i evs ?st1) ! i = Some r" for r
    proof (cases "promises ?st1 ! i")
      case None
      then show ?thesis using r2 [OF None that] by auto
    next
      case (Some r')
      then have "dispatch i evs ?st1 = ?st1" by (simp add: dispatch_settled)
      then have "promises ?st1 ! i = Some r" using that by simp
      then show ?thesis using r1 by fastforce
    qed
    then show ?thesis
      unfolding step using t1 t2 by (intro exI [of _ "tr1 @ tr2"]) simp
  qed
qed

text \<open>What \<^verbatim>\<open>await wait(key)\<close> does to the state and the trace.\<close>

lemma await_wait_unfold:
  "await_wait k evs st =
     (case promises (timer_fired (length (promises st))
                      (dispatch (length (promises st)) evs (snd (wait k st))))
             ! length (promises st) of
        Some r \<Rightarrow> (r, timer_fired (length (promises st))
                      (dispatch (length (promises st)) evs (snd (wait k st))))
      | None \<Rightarrow> (Inl AckTimeout, timer_fired (length (promises st))
                      (dispatch (length (promises st)) evs (snd (wait k st)))))"
proof -
  have w: "wait k st = (length (promises st), snd (wait k st))"
    by (simp add: prod_eq_iff)
  show ?thesis
    unfolding await_wait_def by (subst w) (simp add: Let_def)
qed

lemma await_wait_frame [simp]:
  "ackResolvers (snd (await_wait k evs st)) = (ackResolvers st)(k \<mapsto> length (promises st))"
  "length (promises (snd (await_wait k evs st))) = Suc (length (promises st))"
  "progress (snd (await_wait k evs st)) = progress st"
  "fastMode (snd (await_wait k evs st)) = fastMode st"
  "ble (snd (await_wait k evs st)) = ble st"
  "ota_file (snd (await_wait k evs st)) = ota_file st"
  "logs (snd (await_wait k evs st)) = logs st"
  by (simp_all add: await_wait_unfold split: option.split)

section \<open>The order monitor\<close>

lemma acks_of_iff: "s \<in> acks_of a \<longleftrightarrow> is_ack (SectorKey s) 0 a"
  by (cases a rule: acks_of.cases) auto

lemma acks_of_list: "s \<in> \<Union> (acks_of ` set tr) \<longleftrightarrow> list_ex (is_ack (SectorKey s) 0) tr"
  by (auto simp: list_ex_iff acks_of_iff)

lemma ordered_step: "ordered A (a # tr) =
  ((case a of WriteData s p b \<Rightarrow> s = 0 \<or> s - 1 \<in> A | _ \<Rightarrow> True) \<and> ordered (A \<union> acks_of a) tr)"
  by (cases a) simp_all

lemma ordered_append:
  "ordered A (xs @ ys) \<longleftrightarrow> ordered A xs \<and> ordered (A \<union> \<Union> (acks_of ` set xs)) ys"
proof (induction xs arbitrary: A)
  case Nil
  show ?case by simp
next
  case (Cons a xs)
  have "A \<union> acks_of a \<union> \<Union> (acks_of ` set xs) = A \<union> \<Union> (acks_of ` set (a # xs))"
    by auto
  then show ?case
    by (simp only: append_Cons ordered_step Cons.IH) auto
qed

lemma ordered_no_writes: "data_writes tr = [] \<Longrightarrow> ordered A tr"
proof (induction tr arbitrary: A)
  case Nil
  show ?case by simp
next
  case (Cons a tr)
  then show ?case by (cases a) simp_all
qed


text \<open>The inner loop.\<close>

lemma send_packets_only_trace:
  "\<exists>tr. snd (send_packets e fm s sd ps st) = st\<lparr>trace := trace st @ tr\<rparr>"
proof (induction ps arbitrary: st)
  case Nil
  show ?case by (intro exI [of _ "[]"]) simp
next
  case (Cons p ps)
  let ?w = "WriteData s p (pBuf fm s sd p)"
  show ?case
  proof (cases "dataWriteError e s p")
    case (Some m)
    then show ?thesis
      by (intro exI [of _ "[?w]"]) (simp add: Let_def emit_def)
  next
    case None
    let ?tr0 = "if fm then [?w] else [?w, Sleep 12]"
    let ?st2 = "st\<lparr>trace := trace st @ ?tr0\<rparr>"
    have step: "send_packets e fm s sd (p # ps) st = send_packets e fm s sd ps ?st2"
      using None by (simp add: Let_def emit_def)
    obtain tr where "snd (send_packets e fm s sd ps ?st2) = ?st2\<lparr>trace := trace ?st2 @ tr\<rparr>"
      using Cons.IH [of ?st2] by blast
    then have "snd (send_packets e fm s sd (p # ps) st) = st\<lparr>trace := trace st @ (?tr0 @ tr)\<rparr>"
      unfolding step by simp
    then show ?thesis by blast
  qed
qed

lemma send_packets_frame [simp]:
  "ackResolvers (snd (send_packets e fm s sd ps st)) = ackResolvers st"
  "promises (snd (send_packets e fm s sd ps st)) = promises st"
  "progress (snd (send_packets e fm s sd ps st)) = progress st"
  "fastMode (snd (send_packets e fm s sd ps st)) = fastMode st"
  "ble (snd (send_packets e fm s sd ps st)) = ble st"
  "ota_file (snd (send_packets e fm s sd ps st)) = ota_file st"
  "logs (snd (send_packets e fm s sd ps st)) = logs st"
proof -
  obtain tr where "snd (send_packets e fm s sd ps st) = st\<lparr>trace := trace st @ tr\<rparr>"
    using send_packets_only_trace by blast
  then show
    "ackResolvers (snd (send_packets e fm s sd ps st)) = ackResolvers st"
    "promises (snd (send_packets e fm s sd ps st)) = promises st"
    "progress (snd (send_packets e fm s sd ps st)) = progress st"
    "fastMode (snd (send_packets e fm s sd ps st)) = fastMode st"
    "ble (snd (send_packets e fm s sd ps st)) = ble st"
    "ota_file (snd (send_packets e fm s sd ps st)) = ota_file st"
    "logs (snd (send_packets e fm s sd ps st)) = logs st"
    by simp_all
qed

lemma send_packets_trace:
  "\<exists>tr. trace (snd (send_packets e fm s sd ps st)) = trace st @ tr
     \<and> progress_events tr = []
     \<and> \<Union> (acks_of ` set tr) = {}
     \<and> (s = 0 \<or> s - 1 \<in> A \<longrightarrow> ordered A tr)
     \<and> prefix (data_writes tr) (map (\<lambda>p. (s, p, pBuf fm s sd p)) ps)
     \<and> (fst (send_packets e fm s sd ps st) = None
          \<longrightarrow> data_writes tr = map (\<lambda>p. (s, p, pBuf fm s sd p)) ps)"
proof (induction ps arbitrary: st)
  case Nil
  show ?case by (intro exI [of _ "[]"]) simp
next
  case (Cons p ps)
  define w where "w = WriteData s p (pBuf fm s sd p)"
  show ?case
  proof (cases "dataWriteError e s p")
    case (Some m)
    have r: "send_packets e fm s sd (p # ps) st = (Some (TransportError m), emit w st)"
      using Some by (simp add: Let_def w_def)
    have "data_writes [w] = [(s, p, pBuf fm s sd p)]" "progress_events [w] = []"
      "\<Union> (acks_of ` set [w]) = {}" "s = 0 \<or> s - 1 \<in> A \<longrightarrow> ordered A [w]"
      by (simp_all add: w_def)
    then show ?thesis
      unfolding r by (intro exI [of _ "[w]"]) simp
  next
    case None
    define tr0 where "tr0 = (if fm then [w] else [w, Sleep 12])"
    define st2 where "st2 = (if fm then emit w st else emit (Sleep 12) (emit w st))"
    have t0: "trace st2 = trace st @ tr0" by (simp add: st2_def tr0_def)
    have step: "send_packets e fm s sd (p # ps) st = send_packets e fm s sd ps st2"
      using None by (simp add: Let_def st2_def w_def)
    have d0: "data_writes tr0 = [(s, p, pBuf fm s sd p)]" "progress_events tr0 = []"
      "\<Union> (acks_of ` set tr0) = {}"
      by (simp_all add: tr0_def w_def)
    have o0: "s = 0 \<or> s - 1 \<in> A \<Longrightarrow> ordered A tr0"
      by (cases fm) (simp_all add: tr0_def w_def)
    obtain tr where all: "trace (snd (send_packets e fm s sd ps st2)) = trace st2 @ tr
      \<and> progress_events tr = [] \<and> \<Union> (acks_of ` set tr) = {}
      \<and> (s = 0 \<or> s - 1 \<in> A \<longrightarrow> ordered A tr)
      \<and> prefix (data_writes tr) (map (\<lambda>p. (s, p, pBuf fm s sd p)) ps)
      \<and> (fst (send_packets e fm s sd ps st2) = None
          \<longrightarrow> data_writes tr = map (\<lambda>p. (s, p, pBuf fm s sd p)) ps)"
      using Cons.IH [of st2] ..
    note tr = all [THEN conjunct1] all [THEN conjunct2, THEN conjunct1]
      all [THEN conjunct2, THEN conjunct2, THEN conjunct1]
      all [THEN conjunct2, THEN conjunct2, THEN conjunct2, THEN conjunct1]
      all [THEN conjunct2, THEN conjunct2, THEN conjunct2, THEN conjunct2, THEN conjunct1]
      all [THEN conjunct2, THEN conjunct2, THEN conjunct2, THEN conjunct2, THEN conjunct2]
    have a: "trace (snd (send_packets e fm s sd ps st2)) = trace st @ (tr0 @ tr)"
      using tr(1) t0 by simp
    have b: "progress_events (tr0 @ tr) = []"
      using tr(2) d0(2) by simp
    have c: "\<Union> (acks_of ` set (tr0 @ tr)) = {}"
      using tr(3) d0(3) by (simp only: set_append image_Un Union_Un_distrib Un_empty)
    have d: "s = 0 \<or> s - 1 \<in> A \<longrightarrow> ordered A (tr0 @ tr)"
      using tr(4) o0 d0(3) by (simp only: ordered_append Un_empty_right) blast
    have e: "prefix (data_writes (tr0 @ tr)) (map (\<lambda>p. (s, p, pBuf fm s sd p)) (p # ps))"
      using tr(5) d0(1) by simp
    have f: "fst (send_packets e fm s sd ps st2) = None
          \<longrightarrow> data_writes (tr0 @ tr) = map (\<lambda>p. (s, p, pBuf fm s sd p)) (p # ps)"
      using tr(6) d0(1) by simp
    show ?thesis
      unfolding step by (intro exI [of _ "tr0 @ tr"] conjI; fact a b c d e f)
  qed
qed

text \<open>\<^verbatim>\<open>await wait(key)\<close> on a registry whose resolvers all belong to existing promises.\<close>

lemma registry_ok_await_wait:
  "registry_ok st \<Longrightarrow> registry_ok (snd (await_wait k evs st))"
  unfolding registry_ok_def
  by (auto simp: ran_def split: if_splits)

lemma await_wait_trace:
  "\<exists>tr. trace (snd (await_wait k evs st)) = trace st @ tr
     \<and> data_writes tr = [] \<and> progress_events tr = []
     \<and> (\<forall>s. registry_ok st \<and> fst (await_wait k evs st) = Inr s \<longrightarrow> list_ex (is_ack k s) tr)
     \<and> (\<forall>err. fst (await_wait k evs st) = Inl err \<longrightarrow> err = AckTimeout)"
proof -
  let ?i = "length (promises st)"
  let ?st1 = "snd (wait k st)"
  let ?st2 = "dispatch ?i evs ?st1"
  let ?st3 = "timer_fired ?i ?st2"
  have pend: "?i < length (promises ?st1)" "promises ?st1 ! ?i = None"
    by (simp_all add: nth_append)
  obtain tr2 where tr2: "trace ?st2 = trace ?st1 @ tr2" "data_writes tr2 = []"
    "progress_events tr2 = []"
    and r2: "\<And>r. promises ?st2 ! ?i = Some r \<Longrightarrow>
       \<exists>k' s. r = Inr s \<and> ackResolvers ?st1 k' = Some ?i \<and> list_ex (is_ack k' s) tr2"
    using dispatch_trace [of ?i evs ?st1] pend by blast
  have key: "k' = k" if "ackResolvers ?st1 k' = Some ?i" "registry_ok st" for k'
  proof (rule ccontr)
    assume "k' \<noteq> k"
    then have "ackResolvers st k' = Some ?i" using that by simp
    then have "?i \<in> ran (ackResolvers st)" by (auto simp: ran_def)
    then show False using that by (auto simp: registry_ok_def)
  qed
  have len2: "?i < length (promises ?st2)" by simp
  show ?thesis
  proof (cases "promises ?st2 ! ?i")
    case None
    then have st3: "trace ?st3 = trace ?st2 @ [TimerFired ?i]"
      "promises ?st3 ! ?i = Some (Inl AckTimeout)"
      using len2 by (simp_all add: timer_fired_def)
    have res: "await_wait k evs st = (Inl AckTimeout, ?st3)"
      by (simp only: await_wait_unfold st3 option.case)
    show ?thesis
      unfolding res using tr2 st3
      by (intro exI [of _ "Registered k ?i 12000 # tr2 @ [TimerFired ?i]"]) simp
  next
    case (Some r)
    then have same: "?st3 = ?st2" by (simp add: timer_fired_def)
    have res: "await_wait k evs st = (r, ?st2)"
      by (simp only: await_wait_unfold same Some option.case)
    obtain k' s where ks: "r = Inr s" "ackResolvers ?st1 k' = Some ?i" "list_ex (is_ack k' s) tr2"
      using r2 [OF Some] by blast
    have "registry_ok st \<longrightarrow> list_ex (is_ack k s) tr2" using key ks(2,3) by blast
    then show ?thesis
      unfolding res using tr2 ks(1)
      by (intro exI [of _ "Registered k ?i 12000 # tr2"]) simp
  qed
qed

text \<open>The outer loop.\<close>

lemma send_sectors_step:
  "send_sectors e fm raw (k # rest) st =
     (case fst (send_packets e fm k (sData raw k) [0..<pkts fm (sData raw k)] st) of
        Some err \<Rightarrow>
          (Some err, snd (send_packets e fm k (sData raw k) [0..<pkts fm (sData raw k)] st))
      | None \<Rightarrow>
          (case fst (await_wait (SectorKey k) (events e (SectorKey k))
                 (snd (send_packets e fm k (sData raw k) [0..<pkts fm (sData raw k)] st))) of
             Inl err \<Rightarrow>
               (Some err, snd (await_wait (SectorKey k) (events e (SectorKey k))
                 (snd (send_packets e fm k (sData raw k) [0..<pkts fm (sData raw k)] st))))
           | Inr status \<Rightarrow>
               if status \<noteq> 0
               then (Some SectorError, snd (await_wait (SectorKey k) (events e (SectorKey k))
                 (snd (send_packets e fm k (sData raw k) [0..<pkts fm (sData raw k)] st))))
               else send_sectors e fm raw rest
                 (setProgress (js_progress k (totalS raw))
                   (snd (await_wait (SectorKey k) (events e (SectorKey k))
                     (snd (send_packets e fm k (sData raw k) [0..<pkts fm (sData raw k)] st)))))))"
proof (cases "send_packets e fm k (sData raw k) [0..<pkts fm (sData raw k)] st")
  case sp: (Pair r1 st1)
  show ?thesis
  proof (cases r1)
    case (Some err)
    then show ?thesis using sp by simp
  next
    case None
    show ?thesis
    proof (cases "await_wait (SectorKey k) (events e (SectorKey k)) st1")
      case aw: (Pair r2 st2)
      show ?thesis
        using sp None aw by (cases r2) simp_all
    qed
  qed
qed

lemma send_sectors_frame:
  "fastMode (snd (send_sectors e fm raw ss st)) = fastMode st
   \<and> ble (snd (send_sectors e fm raw ss st)) = ble st
   \<and> ota_file (snd (send_sectors e fm raw ss st)) = ota_file st
   \<and> logs (snd (send_sectors e fm raw ss st)) = logs st
   \<and> (registry_ok st \<longrightarrow> registry_ok (snd (send_sectors e fm raw ss st)))
   \<and> (fst (send_sectors e fm raw ss st) = None \<and> ss \<noteq> []
        \<longrightarrow> progress (snd (send_sectors e fm raw ss st)) = js_progress (last ss) (totalS raw))
   \<and> (ss = [] \<longrightarrow> progress (snd (send_sectors e fm raw ss st)) = progress st)"
proof (induction ss arbitrary: st)
  case Nil
  show ?case by simp
next
  case (Cons k rest)
  define st1 where "st1 = snd (send_packets e fm k (sData raw k) [0..<pkts fm (sData raw k)] st)"
  define st2 where "st2 = snd (await_wait (SectorKey k) (events e (SectorKey k)) st1)"
  define st3 where "st3 = setProgress (js_progress k (totalS raw)) st2"
  have f1: "fastMode st1 = fastMode st" "ble st1 = ble st" "ota_file st1 = ota_file st"
    "logs st1 = logs st" "registry_ok st1 = registry_ok st"
    by (simp_all add: st1_def registry_ok_def)
  have f2: "fastMode st2 = fastMode st" "ble st2 = ble st" "ota_file st2 = ota_file st"
    "logs st2 = logs st" "registry_ok st \<longrightarrow> registry_ok st2"
    using f1 by (simp_all add: st2_def registry_ok_await_wait)
  have f3: "fastMode st3 = fastMode st" "ble st3 = ble st" "ota_file st3 = ota_file st"
    "logs st3 = logs st" "registry_ok st \<longrightarrow> registry_ok st3"
    "progress st3 = js_progress k (totalS raw)"
    using f2 by (simp_all add: st3_def registry_ok_def)
  note ih = Cons.IH [of st3]
  define r1 where "r1 = fst (send_packets e fm k (sData raw k) [0..<pkts fm (sData raw k)] st)"
  define r2 where "r2 = fst (await_wait (SectorKey k) (events e (SectorKey k)) st1)"
  have res: "send_sectors e fm raw (k # rest) st =
     (case r1 of Some err \<Rightarrow> (Some err, st1)
      | None \<Rightarrow> (case r2 of Inl err \<Rightarrow> (Some err, st2)
          | Inr status \<Rightarrow> if status \<noteq> 0 then (Some SectorError, st2)
              else send_sectors e fm raw rest st3))"
    unfolding send_sectors_step r1_def r2_def st1_def st2_def st3_def ..
  show ?case
  proof (cases r1)
    case (Some err)
    then show ?thesis unfolding res using f1 by simp
  next
    case None
    show ?thesis
    proof (cases r2)
      case (Inl err)
      then show ?thesis unfolding res using None f2 by simp
    next
      case (Inr status)
      show ?thesis
      proof (cases "status = 0")
        case False
        then show ?thesis unfolding res using None Inr f2 by simp
      next
        case True
        have r: "send_sectors e fm raw (k # rest) st = send_sectors e fm raw rest st3"
          unfolding res using None Inr True by simp
        show ?thesis
          unfolding r using ih f3 by (cases rest) simp_all
      qed
    qed
  qed
qed

lemma send_sectors_trace:
  "\<exists>tr. trace (snd (send_sectors e fm raw [k..<n] st)) = trace st @ tr
     \<and> prefix (data_writes tr) (concat (map (sector_writes fm raw) [k..<n]))
     \<and> prefix (progress_events tr) (map (\<lambda>s. js_progress s (totalS raw)) [k..<n])
     \<and> (fst (send_sectors e fm raw [k..<n] st) = None \<longrightarrow>
          data_writes tr = concat (map (sector_writes fm raw) [k..<n])
          \<and> progress_events tr = map (\<lambda>s. js_progress s (totalS raw)) [k..<n])
     \<and> (registry_ok st \<and> (k = 0 \<or> k - 1 \<in> A) \<longrightarrow> ordered A tr)"
proof (induction "n - k" arbitrary: k st A)
  case 0
  then have e: "[k..<n] = []" by simp
  show ?case unfolding e by (intro exI [of _ "[]"]) simp
next
  case (Suc m)
  then have kn: "k < n" and m: "m = n - Suc k" by simp_all
  have upt: "[k..<n] = k # [Suc k..<n]" using kn by (rule upt_conv_Cons)
  define rest where "rest = [Suc k..<n]"
  define sd where "sd = sData raw k"
  define ps where "ps = [0..<pkts fm sd]"
  define sw where "sw = sector_writes fm raw k"
  define ws where "ws = concat (map (sector_writes fm raw) rest)"
  define pr where "pr = map (\<lambda>s. js_progress s (totalS raw)) rest"
  define jp where "jp = js_progress k (totalS raw)"
  define r1 where "r1 = fst (send_packets e fm k sd ps st)"
  define st1 where "st1 = snd (send_packets e fm k sd ps st)"
  define r2 where "r2 = fst (await_wait (SectorKey k) (events e (SectorKey k)) st1)"
  define st2 where "st2 = snd (await_wait (SectorKey k) (events e (SectorKey k)) st1)"
  define st3 where "st3 = setProgress jp st2"
  have res: "send_sectors e fm raw (k # rest) st =
     (case r1 of Some err \<Rightarrow> (Some err, st1)
      | None \<Rightarrow> (case r2 of Inl err \<Rightarrow> (Some err, st2)
          | Inr status \<Rightarrow> if status \<noteq> 0 then (Some SectorError, st2)
              else send_sectors e fm raw rest st3))"
    unfolding send_sectors_step r1_def r2_def st1_def st2_def st3_def sd_def ps_def jp_def ..
  have sw: "sw = map (\<lambda>p. (k, p, pBuf fm k sd p)) ps"
    by (simp add: sw_def sector_writes_def sd_def ps_def)
  have goal_lists: "concat (map (sector_writes fm raw) (k # rest)) = sw @ ws"
    "map (\<lambda>s. js_progress s (totalS raw)) (k # rest) = jp # pr"
    by (simp_all add: sw_def ws_def pr_def jp_def)
  obtain tr1 where all1: "trace (snd (send_packets e fm k sd ps st)) = trace st @ tr1
     \<and> progress_events tr1 = []
     \<and> \<Union> (acks_of ` set tr1) = {}
     \<and> (k = 0 \<or> k - 1 \<in> A \<longrightarrow> ordered A tr1)
     \<and> prefix (data_writes tr1) (map (\<lambda>p. (k, p, pBuf fm k sd p)) ps)
     \<and> (fst (send_packets e fm k sd ps st) = None
          \<longrightarrow> data_writes tr1 = map (\<lambda>p. (k, p, pBuf fm k sd p)) ps)"
    using send_packets_trace [of e fm k sd ps st A] ..
  have t1: "trace st1 = trace st @ tr1" "progress_events tr1 = []"
    "\<Union> (acks_of ` set tr1) = {}" "k = 0 \<or> k - 1 \<in> A \<Longrightarrow> ordered A tr1"
    "prefix (data_writes tr1) sw" "r1 = None \<Longrightarrow> data_writes tr1 = sw"
    using all1 unfolding st1_def r1_def sw by simp_all
  have ok1: "registry_ok st1 = registry_ok st"
    by (simp add: st1_def registry_ok_def)
  obtain tr2 where all2: "trace (snd (await_wait (SectorKey k) (events e (SectorKey k)) st1))
        = trace st1 @ tr2
     \<and> data_writes tr2 = [] \<and> progress_events tr2 = []
     \<and> (\<forall>s. registry_ok st1 \<and> fst (await_wait (SectorKey k) (events e (SectorKey k)) st1) = Inr s
           \<longrightarrow> list_ex (is_ack (SectorKey k) s) tr2)
     \<and> (\<forall>err. fst (await_wait (SectorKey k) (events e (SectorKey k)) st1) = Inl err
           \<longrightarrow> err = AckTimeout)"
    using await_wait_trace [of "SectorKey k" "events e (SectorKey k)" st1] ..
  have t2: "trace st2 = trace st1 @ tr2" "data_writes tr2 = []" "progress_events tr2 = []"
    "\<And>s. registry_ok st \<Longrightarrow> r2 = Inr s \<Longrightarrow> list_ex (is_ack (SectorKey k) s) tr2"
    using all2 unfolding st2_def r2_def ok1 by simp_all
  have o12: "registry_ok st \<and> (k = 0 \<or> k - 1 \<in> A) \<longrightarrow> ordered A (tr1 @ tr2)"
    using t1(4) t2(2) by (simp add: ordered_append ordered_no_writes)
  have p12: "prefix (data_writes (tr1 @ tr2)) (sw @ ws)"
    "prefix (progress_events (tr1 @ tr2)) (jp # pr)"
    using t1(5) t1(2) t2(2,3) by (simp_all add: prefix_prefix)
  have t12: "trace st2 = trace st @ (tr1 @ tr2)"
    using t1(1) t2(1) by simp
  show ?case
  proof (cases r1)
    case (Some err)
    have r: "send_sectors e fm raw (k # rest) st = (Some err, st1)"
      unfolding res using Some by simp
    have a: "trace st1 = trace st @ tr1" by (rule t1(1))
    have b: "prefix (data_writes tr1) (sw @ ws)" using t1(5) by (rule prefix_prefix)
    have c: "prefix (progress_events tr1) (jp # pr)" using t1(2) by simp
    have d: "registry_ok st \<and> (k = 0 \<or> k - 1 \<in> A) \<longrightarrow> ordered A tr1" using t1(4) by simp
    show ?thesis
      unfolding upt rest_def [symmetric] r goal_lists fst_conv snd_conv
      using a b c d by (intro exI [of _ tr1]) simp
  next
    case None
    show ?thesis
    proof (cases "\<exists>status. r2 = Inr status \<and> status = 0")
      case False
      then obtain err where r: "send_sectors e fm raw (k # rest) st = (Some err, st2)"
        unfolding res using None by (cases r2) auto
      show ?thesis
        unfolding upt rest_def [symmetric] r goal_lists fst_conv snd_conv
        using t12 p12 o12 by (intro exI [of _ "tr1 @ tr2"]) simp
    next
      case True
      then have r2: "r2 = Inr 0" by simp
      have r: "send_sectors e fm raw (k # rest) st = send_sectors e fm raw rest st3"
        unfolding res using None r2 by simp
      define A' where "A' = A \<union> \<Union> (acks_of ` set (tr1 @ tr2 @ [SetProgress jp]))"
      obtain tr3 where all3: "trace (snd (send_sectors e fm raw [Suc k..<n] st3)) = trace st3 @ tr3
         \<and> prefix (data_writes tr3) (concat (map (sector_writes fm raw) [Suc k..<n]))
         \<and> prefix (progress_events tr3) (map (\<lambda>s. js_progress s (totalS raw)) [Suc k..<n])
         \<and> (fst (send_sectors e fm raw [Suc k..<n] st3) = None \<longrightarrow>
              data_writes tr3 = concat (map (sector_writes fm raw) [Suc k..<n])
              \<and> progress_events tr3 = map (\<lambda>s. js_progress s (totalS raw)) [Suc k..<n])
         \<and> (registry_ok st3 \<and> (Suc k = 0 \<or> Suc k - 1 \<in> A') \<longrightarrow> ordered A' tr3)"
        using Suc.hyps(1) [OF m, of st3 A'] ..
      have t3: "trace (snd (send_sectors e fm raw rest st3)) = trace st3 @ tr3"
        "prefix (data_writes tr3) ws" "prefix (progress_events tr3) pr"
        "fst (send_sectors e fm raw rest st3) = None \<Longrightarrow> data_writes tr3 = ws"
        "fst (send_sectors e fm raw rest st3) = None \<Longrightarrow> progress_events tr3 = pr"
        "registry_ok st3 \<Longrightarrow> k \<in> A' \<Longrightarrow> ordered A' tr3"
        using all3 unfolding rest_def ws_def pr_def by simp_all
      have ok3: "registry_ok st \<Longrightarrow> registry_ok st3"
      proof -
        assume "registry_ok st"
        then have "registry_ok st2"
          unfolding st2_def using ok1 by (simp add: registry_ok_await_wait)
        then show ?thesis by (simp add: st3_def registry_ok_def)
      qed
      have kA: "registry_ok st \<Longrightarrow> k \<in> A'"
      proof -
        assume "registry_ok st"
        then have "list_ex (is_ack (SectorKey k) 0) tr2" using t2(4) r2 by simp
        then have "k \<in> \<Union> (acks_of ` set tr2)" by (simp only: acks_of_list)
        then show ?thesis by (simp add: A'_def)
      qed
      define tr where "tr = tr1 @ tr2 @ [SetProgress jp] @ tr3"
      have dw1: "data_writes tr1 = sw" using t1(6) None by simp
      have a: "trace (snd (send_sectors e fm raw rest st3)) = trace st @ tr"
        using t3(1) t12 by (simp add: st3_def tr_def)
      have b: "prefix (data_writes tr) (sw @ ws)"
        using t3(2) t2(2) dw1 by (simp add: tr_def)
      have c: "prefix (progress_events tr) (jp # pr)"
        using t3(3) t1(2) t2(3) by (simp add: tr_def)
      have d: "fst (send_sectors e fm raw rest st3) = None \<longrightarrow>
          data_writes tr = sw @ ws \<and> progress_events tr = jp # pr"
        using t3(4,5) t1(2) t2(2,3) dw1 by (simp add: tr_def)
      have o: "registry_ok st \<and> (k = 0 \<or> k - 1 \<in> A) \<longrightarrow> ordered A tr"
      proof
        assume h: "registry_ok st \<and> (k = 0 \<or> k - 1 \<in> A)"
        then have "ordered A (tr1 @ tr2)" using o12 by simp
        then have "ordered A ((tr1 @ tr2) @ [SetProgress jp])"
          by (simp add: ordered_append)
        moreover have "ordered A' tr3" using t3(6) ok3 kA h by simp
        ultimately have "ordered A (((tr1 @ tr2) @ [SetProgress jp]) @ tr3)"
          unfolding A'_def by (subst ordered_append) simp
        then show "ordered A tr" by (simp add: tr_def)
      qed
      show ?thesis
        unfolding upt rest_def [symmetric] r goal_lists
        using a b c d o by (intro exI [of _ tr]) simp
    qed
  qed
qed

text \<open>The \<^verbatim>\<open>try\<close> block and the whole of \<^verbatim>\<open>runOta\<close>.\<close>

lemma runOta_try_step:
  "runOta_try e raw st =
     (case cmdWriteError e (startBuf (length raw)) of
        Some m \<Rightarrow> (Some (TransportError m), emit (WriteCmd (startBuf (length raw))) st)
      | None \<Rightarrow>
          (case fst (await_wait (CmdKey 1) (events e (CmdKey 1))
                      (emit (WriteCmd (startBuf (length raw))) st)) of
             Inl err \<Rightarrow> (Some err, snd (await_wait (CmdKey 1) (events e (CmdKey 1))
                      (emit (WriteCmd (startBuf (length raw))) st)))
           | Inr status \<Rightarrow>
               if status \<noteq> 0
               then (Some Rejected, snd (await_wait (CmdKey 1) (events e (CmdKey 1))
                      (emit (WriteCmd (startBuf (length raw))) st)))
               else
                 (case fst (send_sectors e (fastMode st) raw [0..<totalS raw]
                         (snd (await_wait (CmdKey 1) (events e (CmdKey 1))
                            (emit (WriteCmd (startBuf (length raw))) st)))) of
                    Some err \<Rightarrow> (Some err, snd (send_sectors e (fastMode st) raw [0..<totalS raw]
                         (snd (await_wait (CmdKey 1) (events e (CmdKey 1))
                            (emit (WriteCmd (startBuf (length raw))) st)))))
                  | None \<Rightarrow>
                      (case cmdWriteError e finishBuf of
                         Some m \<Rightarrow> (Some (TransportError m), emit (WriteCmd finishBuf)
                            (snd (send_sectors e (fastMode st) raw [0..<totalS raw]
                              (snd (await_wait (CmdKey 1) (events e (CmdKey 1))
                                (emit (WriteCmd (startBuf (length raw))) st))))))
                       | None \<Rightarrow>
                           (case fst (await_wait (CmdKey 2) (events e (CmdKey 2))
                                  (emit (WriteCmd finishBuf)
                                    (snd (send_sectors e (fastMode st) raw [0..<totalS raw]
                                      (snd (await_wait (CmdKey 1) (events e (CmdKey 1))
                                        (emit (WriteCmd (startBuf (length raw))) st))))))) of
                              Inl err \<Rightarrow> (Some err, snd (await_wait (CmdKey 2) (events e (CmdKey 2))
                                  (emit (WriteCmd finishBuf)
                                    (snd (send_sectors e (fastMode st) raw [0..<totalS raw]
                                      (snd (await_wait (CmdKey 1) (events e (CmdKey 1))
                                        (emit (WriteCmd (startBuf (length raw))) st))))))))
                            | Inr status \<Rightarrow>
                                (None, setOtaStatus OtaSuccess
                                  (snd (await_wait (CmdKey 2) (events e (CmdKey 2))
                                  (emit (WriteCmd finishBuf)
                                    (snd (send_sectors e (fastMode st) raw [0..<totalS raw]
                                      (snd (await_wait (CmdKey 1) (events e (CmdKey 1))
                                        (emit (WriteCmd (startBuf (length raw))) st))))))))))))))"
proof (cases "cmdWriteError e (startBuf (length raw))")
  case (Some m)
  then show ?thesis by (simp add: runOta_try_def Let_def)
next
  case w1: None
  show ?thesis
  proof (cases "await_wait (CmdKey 1) (events e (CmdKey 1))
                      (emit (WriteCmd (startBuf (length raw))) st)")
    case aw1: (Pair r2 st2)
    show ?thesis
    proof (cases r2)
      case (Inl err)
      then show ?thesis using w1 aw1 by (simp add: runOta_try_def Let_def)
    next
      case (Inr status)
      show ?thesis
      proof (cases "status = 0")
        case False
        then show ?thesis using w1 aw1 Inr by (simp add: runOta_try_def Let_def)
      next
        case True
        show ?thesis
        proof (cases "send_sectors e (fastMode st) raw [0..<totalS raw] st2")
          case ss: (Pair r3 st3)
          show ?thesis
          proof (cases r3)
            case (Some err)
            then show ?thesis
              using w1 aw1 Inr True ss by (simp add: runOta_try_def Let_def)
          next
            case r3: None
            show ?thesis
            proof (cases "cmdWriteError e finishBuf")
              case (Some m)
              then show ?thesis
                using w1 aw1 Inr True ss r3 by (simp add: runOta_try_def Let_def)
            next
              case w2: None
              show ?thesis
              proof (cases "await_wait (CmdKey 2) (events e (CmdKey 2))
                  (emit (WriteCmd finishBuf) st3)")
                case aw2: (Pair r5 st5)
                show ?thesis
                  using w1 aw1 Inr True ss r3 w2 aw2
                  by (cases r5) (simp_all add: runOta_try_def Let_def)
              qed
            qed
          qed
        qed
      qed
    qed
  qed
qed

lemma ordered_sandwich:
  assumes "data_writes pre = []" and "data_writes post = []"
    and "ordered (\<Union> (acks_of ` set pre)) trS"
  shows "ordered {} (pre @ trS @ post)"
proof -
  have "ordered {} pre" using assms(1) by (rule ordered_no_writes)
  moreover have "ordered ({} \<union> \<Union> (acks_of ` set pre) \<union> \<Union> (acks_of ` set trS)) post"
    using assms(2) by (rule ordered_no_writes)
  ultimately show ?thesis
    using assms(3) by (simp add: ordered_append)
qed

lemma runOta_try_trace:
  "\<exists>tr. trace (snd (runOta_try e raw st)) = trace st @ tr
     \<and> prefix (data_writes tr)
          (concat (map (sector_writes (fastMode st) raw) [0..<totalS raw]))
     \<and> prefix (progress_events tr) (map (\<lambda>s. js_progress s (totalS raw)) [0..<totalS raw])
     \<and> (fst (runOta_try e raw st) = None \<longrightarrow>
          data_writes tr = concat (map (sector_writes (fastMode st) raw) [0..<totalS raw])
          \<and> progress_events tr = map (\<lambda>s. js_progress s (totalS raw)) [0..<totalS raw])
     \<and> (registry_ok st \<longrightarrow> ordered {} tr)"
proof -
  define W where "W = concat (map (sector_writes (fastMode st) raw) [0..<totalS raw])"
  define P where "P = map (\<lambda>s. js_progress s (totalS raw)) [0..<totalS raw]"
  define sb where "sb = startBuf (length raw)"
  define st1 where "st1 = emit (WriteCmd sb) st"
  define r2 where "r2 = fst (await_wait (CmdKey 1) (events e (CmdKey 1)) st1)"
  define st2 where "st2 = snd (await_wait (CmdKey 1) (events e (CmdKey 1)) st1)"
  define r3 where "r3 = fst (send_sectors e (fastMode st) raw [0..<totalS raw] st2)"
  define st3 where "st3 = snd (send_sectors e (fastMode st) raw [0..<totalS raw] st2)"
  define st4 where "st4 = emit (WriteCmd finishBuf) st3"
  define r5 where "r5 = fst (await_wait (CmdKey 2) (events e (CmdKey 2)) st4)"
  define st5 where "st5 = snd (await_wait (CmdKey 2) (events e (CmdKey 2)) st4)"
  define st6 where "st6 = setOtaStatus OtaSuccess st5"
  have res: "runOta_try e raw st =
     (case cmdWriteError e sb of
        Some m \<Rightarrow> (Some (TransportError m), st1)
      | None \<Rightarrow>
          (case r2 of
             Inl err \<Rightarrow> (Some err, st2)
           | Inr status \<Rightarrow>
               if status \<noteq> 0 then (Some Rejected, st2)
               else
                 (case r3 of
                    Some err \<Rightarrow> (Some err, st3)
                  | None \<Rightarrow>
                      (case cmdWriteError e finishBuf of
                         Some m \<Rightarrow> (Some (TransportError m), st4)
                       | None \<Rightarrow>
                           (case r5 of
                              Inl err \<Rightarrow> (Some err, st5)
                            | Inr status \<Rightarrow> (None, st6))))))"
    unfolding runOta_try_step sb_def st1_def r2_def st2_def r3_def st3_def st4_def r5_def
      st5_def st6_def ..
  obtain trA where allA: "trace (snd (await_wait (CmdKey 1) (events e (CmdKey 1)) st1))
        = trace st1 @ trA
     \<and> data_writes trA = [] \<and> progress_events trA = []
     \<and> (\<forall>s. registry_ok st1 \<and> fst (await_wait (CmdKey 1) (events e (CmdKey 1)) st1) = Inr s
           \<longrightarrow> list_ex (is_ack (CmdKey 1) s) trA)
     \<and> (\<forall>err. fst (await_wait (CmdKey 1) (events e (CmdKey 1)) st1) = Inl err
           \<longrightarrow> err = AckTimeout)"
    using await_wait_trace [of "CmdKey 1" "events e (CmdKey 1)" st1] ..
  have tA: "trace st2 = trace st1 @ trA" "data_writes trA = []" "progress_events trA = []"
    using allA unfolding st2_def by simp_all
  define pre where "pre = WriteCmd sb # trA"
  have pre: "trace st2 = trace st @ pre" "data_writes pre = []" "progress_events pre = []"
    using tA by (simp_all add: pre_def st1_def)
  obtain trS where allS:
    "trace (snd (send_sectors e (fastMode st) raw [0..<totalS raw] st2)) = trace st2 @ trS
     \<and> prefix (data_writes trS)
          (concat (map (sector_writes (fastMode st) raw) [0..<totalS raw]))
     \<and> prefix (progress_events trS) (map (\<lambda>s. js_progress s (totalS raw)) [0..<totalS raw])
     \<and> (fst (send_sectors e (fastMode st) raw [0..<totalS raw] st2) = None \<longrightarrow>
          data_writes trS = concat (map (sector_writes (fastMode st) raw) [0..<totalS raw])
          \<and> progress_events trS = map (\<lambda>s. js_progress s (totalS raw)) [0..<totalS raw])
     \<and> (registry_ok st2 \<and> ((0::nat) = 0 \<or> (0::nat) - 1 \<in> \<Union> (acks_of ` set pre))
           \<longrightarrow> ordered (\<Union> (acks_of ` set pre)) trS)"
    using send_sectors_trace [of e "fastMode st" raw 0 "totalS raw" st2 "\<Union> (acks_of ` set pre)"] ..
  have ok2: "registry_ok st \<Longrightarrow> registry_ok st2"
  proof -
    assume "registry_ok st"
    then have "registry_ok st1" by (simp add: st1_def registry_ok_def)
    then show ?thesis unfolding st2_def by (rule registry_ok_await_wait)
  qed
  have tS: "trace st3 = trace st2 @ trS" "prefix (data_writes trS) W"
    "prefix (progress_events trS) P" "r3 = None \<Longrightarrow> data_writes trS = W"
    "r3 = None \<Longrightarrow> progress_events trS = P"
    "registry_ok st \<Longrightarrow> ordered (\<Union> (acks_of ` set pre)) trS"
    using allS ok2 unfolding st3_def r3_def W_def P_def by simp_all
  obtain trB where allB: "trace (snd (await_wait (CmdKey 2) (events e (CmdKey 2)) st4))
        = trace st4 @ trB
     \<and> data_writes trB = [] \<and> progress_events trB = []
     \<and> (\<forall>s. registry_ok st4 \<and> fst (await_wait (CmdKey 2) (events e (CmdKey 2)) st4) = Inr s
           \<longrightarrow> list_ex (is_ack (CmdKey 2) s) trB)
     \<and> (\<forall>err. fst (await_wait (CmdKey 2) (events e (CmdKey 2)) st4) = Inl err
           \<longrightarrow> err = AckTimeout)"
    using await_wait_trace [of "CmdKey 2" "events e (CmdKey 2)" st4] ..
  have tB: "trace st5 = trace st4 @ trB" "data_writes trB = []" "progress_events trB = []"
    using allB unfolding st5_def by simp_all
  have shape: "\<And>post. data_writes post = [] \<Longrightarrow> progress_events post = [] \<Longrightarrow>
      prefix (data_writes (pre @ trS @ post)) W
      \<and> prefix (progress_events (pre @ trS @ post)) P
      \<and> (r3 = None \<longrightarrow> data_writes (pre @ trS @ post) = W
            \<and> progress_events (pre @ trS @ post) = P)
      \<and> (registry_ok st \<longrightarrow> ordered {} (pre @ trS @ post))"
    using pre(2,3) tS(2-6) by (simp add: ordered_sandwich)
  have early: "prefix (data_writes pre) W \<and> prefix (progress_events pre) P
      \<and> (registry_ok st \<longrightarrow> ordered {} pre)"
    "prefix (data_writes [WriteCmd sb]) W \<and> prefix (progress_events [WriteCmd sb]) P
      \<and> (registry_ok st \<longrightarrow> ordered {} [WriteCmd sb])"
    using pre(2,3) by (simp_all add: ordered_no_writes)
  have t3: "trace st3 = trace st @ pre @ trS @ []"
    using pre(1) tS(1) by simp
  have t4: "trace st4 = trace st @ pre @ trS @ [WriteCmd finishBuf]"
    using pre(1) tS(1) by (simp add: st4_def)
  have t5: "trace st5 = trace st @ pre @ trS @ (WriteCmd finishBuf # trB)"
    using t4 tB(1) by simp
  have t6: "trace st6 = trace st @ pre @ trS @ (WriteCmd finishBuf # trB @ [SetOtaStatus OtaSuccess])"
    using t5 by (simp add: st6_def)
  have q: "data_writes ([]::action list) = []" "progress_events ([]::action list) = []"
    "data_writes [WriteCmd finishBuf] = []" "progress_events [WriteCmd finishBuf] = []"
    "data_writes (WriteCmd finishBuf # trB) = []" "progress_events (WriteCmd finishBuf # trB) = []"
    "data_writes (WriteCmd finishBuf # trB @ [SetOtaStatus OtaSuccess]) = []"
    "progress_events (WriteCmd finishBuf # trB @ [SetOtaStatus OtaSuccess]) = []"
    using tB(2,3) by simp_all
  show ?thesis
    unfolding W_def [symmetric] P_def [symmetric]
  proof (cases "cmdWriteError e sb")
    case (Some m)
    have r: "runOta_try e raw st = (Some (TransportError m), st1)"
      unfolding res using Some by simp
    show "\<exists>tr. trace (snd (runOta_try e raw st)) = trace st @ tr
     \<and> prefix (data_writes tr) W \<and> prefix (progress_events tr) P
     \<and> (fst (runOta_try e raw st) = None \<longrightarrow> data_writes tr = W \<and> progress_events tr = P)
     \<and> (registry_ok st \<longrightarrow> ordered {} tr)"
      unfolding r using early(2) by (intro exI [of _ "[WriteCmd sb]"]) (simp add: st1_def)
  next
    case w1: None
    show "\<exists>tr. trace (snd (runOta_try e raw st)) = trace st @ tr
     \<and> prefix (data_writes tr) W \<and> prefix (progress_events tr) P
     \<and> (fst (runOta_try e raw st) = None \<longrightarrow> data_writes tr = W \<and> progress_events tr = P)
     \<and> (registry_ok st \<longrightarrow> ordered {} tr)"
    proof (cases "r2 = Inr 0")
      case False
      then obtain err where r: "runOta_try e raw st = (Some err, st2)"
        unfolding res using w1 by (cases r2) auto
      show ?thesis
        unfolding r using early(1) pre(1) by (intro exI [of _ pre]) simp
    next
      case True
      show ?thesis
      proof (cases r3)
        case (Some err)
        have r: "runOta_try e raw st = (Some err, st3)"
          unfolding res using w1 True Some by simp
        show ?thesis
          unfolding r using shape [OF q(1,2)] t3 Some
          by (intro exI [of _ "pre @ trS @ []"]) simp
      next
        case r3: None
        show ?thesis
        proof (cases "cmdWriteError e finishBuf")
          case (Some m)
          have r: "runOta_try e raw st = (Some (TransportError m), st4)"
            unfolding res using w1 True r3 Some by simp
          show ?thesis
            unfolding r using shape [OF q(3,4)] t4
            by (intro exI [of _ "pre @ trS @ [WriteCmd finishBuf]"]) simp
        next
          case w2: None
          show ?thesis
          proof (cases r5)
            case (Inl err)
            have r: "runOta_try e raw st = (Some err, st5)"
              unfolding res using w1 True r3 w2 Inl by simp
            show ?thesis
              unfolding r using shape [OF q(5,6)] t5
              by (intro exI [of _ "pre @ trS @ (WriteCmd finishBuf # trB)"]) simp
          next
            case (Inr status)
            have r: "runOta_try e raw st = (None, st6)"
              unfolding res using w1 True r3 w2 Inr by simp
            show ?thesis
              unfolding r using shape [OF q(7,8)] t6 r3
              by (intro exI [of _ "pre @ trS @ (WriteCmd finishBuf # trB @ [SetOtaStatus OtaSuccess])"]) simp
          qed
        qed
      qed
    qed
  qed
qed

lemma runOta_try_frame:
  "ble (snd (runOta_try e raw st)) = ble st
   \<and> ota_file (snd (runOta_try e raw st)) = ota_file st
   \<and> fastMode (snd (runOta_try e raw st)) = fastMode st
   \<and> logs (snd (runOta_try e raw st)) = logs st
   \<and> (registry_ok st \<longrightarrow> registry_ok (snd (runOta_try e raw st)))
   \<and> (fst (runOta_try e raw st) = None \<longrightarrow> otaStatus (snd (runOta_try e raw st)) = OtaSuccess)
   \<and> (totalS raw = 0 \<longrightarrow> progress (snd (runOta_try e raw st)) = progress st)
   \<and> (fst (runOta_try e raw st) = None \<and> 0 < totalS raw
        \<longrightarrow> progress (snd (runOta_try e raw st)) = js_progress (totalS raw - 1) (totalS raw))"
proof -
  define sb where "sb = startBuf (length raw)"
  define st1 where "st1 = emit (WriteCmd sb) st"
  define r2 where "r2 = fst (await_wait (CmdKey 1) (events e (CmdKey 1)) st1)"
  define st2 where "st2 = snd (await_wait (CmdKey 1) (events e (CmdKey 1)) st1)"
  define r3 where "r3 = fst (send_sectors e (fastMode st) raw [0..<totalS raw] st2)"
  define st3 where "st3 = snd (send_sectors e (fastMode st) raw [0..<totalS raw] st2)"
  define st4 where "st4 = emit (WriteCmd finishBuf) st3"
  define r5 where "r5 = fst (await_wait (CmdKey 2) (events e (CmdKey 2)) st4)"
  define st5 where "st5 = snd (await_wait (CmdKey 2) (events e (CmdKey 2)) st4)"
  define st6 where "st6 = setOtaStatus OtaSuccess st5"
  have res: "runOta_try e raw st =
     (case cmdWriteError e sb of
        Some m \<Rightarrow> (Some (TransportError m), st1)
      | None \<Rightarrow>
          (case r2 of
             Inl err \<Rightarrow> (Some err, st2)
           | Inr status \<Rightarrow>
               if status \<noteq> 0 then (Some Rejected, st2)
               else
                 (case r3 of
                    Some err \<Rightarrow> (Some err, st3)
                  | None \<Rightarrow>
                      (case cmdWriteError e finishBuf of
                         Some m \<Rightarrow> (Some (TransportError m), st4)
                       | None \<Rightarrow>
                           (case r5 of
                              Inl err \<Rightarrow> (Some err, st5)
                            | Inr status \<Rightarrow> (None, st6))))))"
    unfolding runOta_try_step sb_def st1_def r2_def st2_def r3_def st3_def st4_def r5_def
      st5_def st6_def ..
  have f1: "ble st1 = ble st" "ota_file st1 = ota_file st" "fastMode st1 = fastMode st"
    "logs st1 = logs st" "registry_ok st \<longrightarrow> registry_ok st1" "progress st1 = progress st"
    by (simp_all add: st1_def registry_ok_def)
  have f2: "ble st2 = ble st" "ota_file st2 = ota_file st" "fastMode st2 = fastMode st"
    "logs st2 = logs st" "registry_ok st \<longrightarrow> registry_ok st2" "progress st2 = progress st"
    using f1 by (simp_all add: st2_def registry_ok_await_wait)
  note ss = send_sectors_frame [of e "fastMode st" raw "[0..<totalS raw]" st2,
      folded st3_def r3_def]
  have f3: "ble st3 = ble st" "ota_file st3 = ota_file st" "fastMode st3 = fastMode st"
    "logs st3 = logs st" "registry_ok st \<longrightarrow> registry_ok st3"
    "totalS raw = 0 \<longrightarrow> progress st3 = progress st"
    "r3 = None \<and> 0 < totalS raw \<longrightarrow> progress st3 = js_progress (totalS raw - 1) (totalS raw)"
    using ss f2 by (simp_all add: last_upt)
  have f4: "ble st4 = ble st" "ota_file st4 = ota_file st" "fastMode st4 = fastMode st"
    "logs st4 = logs st" "registry_ok st \<longrightarrow> registry_ok st4" "progress st4 = progress st3"
    using f3 by (simp_all add: st4_def registry_ok_def)
  have f5: "ble st5 = ble st" "ota_file st5 = ota_file st" "fastMode st5 = fastMode st"
    "logs st5 = logs st" "registry_ok st \<longrightarrow> registry_ok st5" "progress st5 = progress st3"
    using f4 by (simp_all add: st5_def registry_ok_await_wait)
  have f6: "ble st6 = ble st" "ota_file st6 = ota_file st" "fastMode st6 = fastMode st"
    "logs st6 = logs st" "registry_ok st \<longrightarrow> registry_ok st6" "progress st6 = progress st3"
    "otaStatus st6 = OtaSuccess"
    using f5 by (simp_all add: st6_def registry_ok_def)
  show ?thesis
  proof (cases "cmdWriteError e sb")
    case (Some m)
    have r: "runOta_try e raw st = (Some (TransportError m), st1)"
      unfolding res using Some by simp
    show ?thesis unfolding r using f1 by simp
  next
    case w1: None
    show ?thesis
    proof (cases "r2 = Inr 0")
      case False
      then obtain err where r: "runOta_try e raw st = (Some err, st2)"
        unfolding res using w1 by (cases r2) auto
      show ?thesis unfolding r using f2 by simp
    next
      case True
      show ?thesis
      proof (cases r3)
        case (Some err)
        have r: "runOta_try e raw st = (Some err, st3)"
          unfolding res using w1 True Some by simp
        show ?thesis unfolding r using f3 by simp
      next
        case r3: None
        show ?thesis
        proof (cases "cmdWriteError e finishBuf")
          case (Some m)
          have r: "runOta_try e raw st = (Some (TransportError m), st4)"
            unfolding res using w1 True r3 Some by simp
          show ?thesis unfolding r using f3 f4 by simp
        next
          case w2: None
          show ?thesis
          proof (cases r5)
            case (Inl err)
            have r: "runOta_try e raw st = (Some err, st5)"
              unfolding res using w1 True r3 w2 Inl by simp
            show ?thesis unfolding r using f3 f5 by simp
          next
            case (Inr status)
            have r: "runOta_try e raw st = (None, st6)"
              unfolding res using w1 True r3 w2 Inr by simp
            show ?thesis unfolding r using f3 f6 r3 by simp
          qed
        qed
      qed
    qed
  qed
qed

lemma runOta_step:
  assumes "ota_file st = Some raw" and "ble st"
  shows "runOta e st =
     (case fst (runOta_try e raw (setProgress 0 (setOtaStatus OtaRunning st))) of
        None \<Rightarrow> snd (runOta_try e raw (setProgress 0 (setOtaStatus OtaRunning st)))
      | Some err \<Rightarrow> addLog (''Error: '' @ message err) ''error''
          (setOtaStatus OtaFailed
            (snd (runOta_try e raw (setProgress 0 (setOtaStatus OtaRunning st))))))"
proof (cases "runOta_try e raw (setProgress 0 (setOtaStatus OtaRunning st))")
  case (Pair r st')
  then show ?thesis using assms by (cases r) (simp_all add: runOta_def)
qed


lemma runOta_status:
  assumes "ota_file st = Some raw" and "ble st"
  shows "otaStatus (runOta e st) =
     (if fst (runOta_try e raw (setProgress 0 (setOtaStatus OtaRunning st))) = None
      then OtaSuccess else OtaFailed)"
proof -
  define st0 where "st0 = setProgress 0 (setOtaStatus OtaRunning st)"
  note fr = runOta_try_frame [of e raw st0]
  show ?thesis
    unfolding runOta_step [OF assms] st0_def [symmetric]
    using fr by (cases "fst (runOta_try e raw st0)") simp_all
qed

lemma runOta_trace:
  assumes "ota_file st = Some raw" and "ble st"
  shows "\<exists>tr. trace (runOta e st) = trace st @ tr
     \<and> prefix (data_writes tr)
          (concat (map (sector_writes (fastMode st) raw) [0..<totalS raw]))
     \<and> prefix (progress_events tr)
          (0 # map (\<lambda>s. js_progress s (totalS raw)) [0..<totalS raw])
     \<and> (otaStatus (runOta e st) = OtaSuccess \<longrightarrow>
          data_writes tr = concat (map (sector_writes (fastMode st) raw) [0..<totalS raw])
          \<and> progress_events tr = 0 # map (\<lambda>s. js_progress s (totalS raw)) [0..<totalS raw])
     \<and> (registry_ok st \<longrightarrow> ordered {} tr)"
proof -
  define W where "W = concat (map (sector_writes (fastMode st) raw) [0..<totalS raw])"
  define P where "P = map (\<lambda>s. js_progress s (totalS raw)) [0..<totalS raw]"
  define st0 where "st0 = setProgress 0 (setOtaStatus OtaRunning st)"
  define r where "r = fst (runOta_try e raw st0)"
  define st' where "st' = snd (runOta_try e raw st0)"
  define pre where "pre = [SetOtaStatus OtaRunning, SetProgress 0]"
  have st0: "trace st0 = trace st @ pre" "fastMode st0 = fastMode st"
    "registry_ok st0 = registry_ok st"
    by (simp_all add: st0_def pre_def registry_ok_def)
  obtain tr where all: "trace (snd (runOta_try e raw st0)) = trace st0 @ tr
     \<and> prefix (data_writes tr)
          (concat (map (sector_writes (fastMode st0) raw) [0..<totalS raw]))
     \<and> prefix (progress_events tr) (map (\<lambda>s. js_progress s (totalS raw)) [0..<totalS raw])
     \<and> (fst (runOta_try e raw st0) = None \<longrightarrow>
          data_writes tr = concat (map (sector_writes (fastMode st0) raw) [0..<totalS raw])
          \<and> progress_events tr = map (\<lambda>s. js_progress s (totalS raw)) [0..<totalS raw])
     \<and> (registry_ok st0 \<longrightarrow> ordered {} tr)"
    using runOta_try_trace [of e raw st0] ..
  have t: "trace st' = trace st @ pre @ tr" "prefix (data_writes tr) W"
    "prefix (progress_events tr) P" "r = None \<Longrightarrow> data_writes tr = W"
    "r = None \<Longrightarrow> progress_events tr = P" "registry_ok st \<Longrightarrow> ordered {} tr"
    using all unfolding st0 st'_def r_def W_def P_def by simp_all
  have status: "otaStatus (runOta e st) = (if r = None then OtaSuccess else OtaFailed)"
    unfolding r_def st0_def by (rule runOta_status [OF assms])
  have run: "runOta e st = (case r of None \<Rightarrow> st'
      | Some err \<Rightarrow> addLog (''Error: '' @ message err) ''error'' (setOtaStatus OtaFailed st'))"
    unfolding r_def st'_def st0_def by (rule runOta_step [OF assms])
  have o: "registry_ok st \<Longrightarrow> data_writes post = [] \<Longrightarrow> ordered {} (pre @ tr @ post)" for post
  proof -
    assume a: "registry_ok st" "data_writes post = []"
    have "\<Union> (acks_of ` set pre) = {}" "data_writes pre = []" by (simp_all add: pre_def)
    then show ?thesis using t(6) [OF a(1)] a(2) by (intro ordered_sandwich) simp_all
  qed
  show ?thesis
    unfolding W_def [symmetric] P_def [symmetric]
  proof (cases r)
    case None
    have tr': "trace (runOta e st) = trace st @ (pre @ tr @ [])"
      unfolding run using None t(1) by simp
    have d: "data_writes (pre @ tr @ []) = data_writes tr"
      "progress_events (pre @ tr @ []) = 0 # progress_events tr"
      by (simp_all add: pre_def)
    show "\<exists>tr. trace (runOta e st) = trace st @ tr
     \<and> prefix (data_writes tr) W \<and> prefix (progress_events tr) (0 # P)
     \<and> (otaStatus (runOta e st) = OtaSuccess \<longrightarrow>
          data_writes tr = W \<and> progress_events tr = 0 # P)
     \<and> (registry_ok st \<longrightarrow> ordered {} tr)"
      using tr' t(2,3) t(4,5) [OF None] o [of "[]"] unfolding status
      by (intro exI [of _ "pre @ tr @ []"]) (simp only: d, simp)
  next
    case (Some err)
    have tr': "trace (runOta e st) = trace st @ (pre @ tr @ [SetOtaStatus OtaFailed])"
      unfolding run using Some t(1) by simp
    have d: "data_writes (pre @ tr @ [SetOtaStatus OtaFailed]) = data_writes tr"
      "progress_events (pre @ tr @ [SetOtaStatus OtaFailed]) = 0 # progress_events tr"
      by (simp_all add: pre_def)
    show "\<exists>tr. trace (runOta e st) = trace st @ tr
     \<and> prefix (data_writes tr) W \<and> prefix (progress_events tr) (0 # P)
     \<and> (otaStatus (runOta e st) = OtaSuccess \<longrightarrow>
          data_writes tr = W \<and> progress_events tr = 0 # P)
     \<and> (registry_ok st \<longrightarrow> ordered {} tr)"
      using tr' t(2,3) o [of "[SetOtaStatus OtaFailed]"] Some unfolding status
      by (intro exI [of _ "pre @ tr @ [SetOtaStatus OtaFailed]"]) (simp only: d, simp)
  qed
qed

text \<open>A device that acknowledges every wait with status 0.\<close>

lemma unat_le16: "unat (word_of_nat v :: byte) + 256 * unat (word_of_nat (v div 256) :: byte)
    = v mod 65536"
proof -
  have "v mod (256 * 256) = 256 * (v div 256 mod 256) + v mod 256"
    by (rule mod_mult2_eq)
  then show ?thesis by (simp add: unat_of_nat)
qed

lemma getUint16_setUint16_le:
  "getUint16 (setUint16_le a @ rest) 0 = Some (a mod 65536)"
  "getUint16 (setUint16_le a @ setUint16_le b @ rest) 2 = Some (b mod 65536)"
  "getUint16 (setUint16_le a @ setUint16_le b @ setUint16_le c @ rest) 4 = Some (c mod 65536)"
  by (simp_all add: getUint16_def setUint16_le_def unat_le16)

lemma handleAck_ack_bytes:
  assumes "ackResolvers st k = Some i"
    and "k = CmdKey c \<and> c < 65536 \<or> k = SectorKey c \<and> c < 65536"
    and "status < 65536"
  shows "handle_event (ack_bytes k status) st = call_resolver k i status st"
proof -
  have m: "c mod 65536 = c" "status mod 65536 = status" "3 mod 65536 = (3::nat)"
    using assms(2,3) by auto
  have e: "setUint16_le v = setUint16_le v @ []" for v by simp
  have g2: "getUint16 (setUint16_le a @ setUint16_le b) 2 = Some (b mod 65536)" for a b
    using getUint16_setUint16_le(2) [of a b "[]"] by simp
  have g4: "getUint16 (setUint16_le a @ setUint16_le b @ setUint16_le c') 4 = Some (c' mod 65536)"
    for a b c'
    using getUint16_setUint16_le(3) [of a b c' "[]"] by simp
  from assms(2) show ?thesis
  proof
    assume "k = CmdKey c \<and> c < 65536"
    then show ?thesis
      using assms(1) by (simp add: ack_bytes_def handleAck_def getUint16_setUint16_le g4 m)
  next
    assume "k = SectorKey c \<and> c < 65536"
    then show ?thesis
      using assms(1) by (simp add: ack_bytes_def handleAck_def getUint16_setUint16_le g2 m)
  qed
qed

lemma await_wait_acked:
  assumes "k = CmdKey c \<and> c < 65536 \<or> k = SectorKey c \<and> c < 65536"
    and "status < 65536"
  shows "fst (await_wait k [ack_bytes k status] st) = Inr status"
proof -
  let ?i = "length (promises st)"
  let ?st1 = "snd (wait k st)"
  have pend: "?i < length (promises ?st1)" "promises ?st1 ! ?i = None"
    by (simp_all add: nth_append)
  have reg: "ackResolvers ?st1 k = Some ?i" by simp
  have d: "dispatch ?i [ack_bytes k status] ?st1 = call_resolver k ?i status ?st1"
    using pend handleAck_ack_bytes [OF reg assms] by simp
  have p: "promises (call_resolver k ?i status ?st1) ! ?i = Some (Inr status)"
    using pend by (simp add: call_resolver_def)
  have t: "timer_fired ?i (call_resolver k ?i status ?st1) = call_resolver k ?i status ?st1"
    using p by (simp add: timer_fired_def)
  show ?thesis
    by (simp only: await_wait_unfold d t p option.case fst_conv)
qed

lemma send_packets_accepting:
  "fst (send_packets accepting fm s sd ps st) = None"
  by (induction ps arbitrary: st) (simp_all add: accepting_def Let_def)

lemma send_sectors_accepting:
  "n \<le> 65536 \<Longrightarrow> fst (send_sectors accepting fm raw [k..<n] st) = None"
proof (induction "n - k" arbitrary: k st)
  case 0
  then show ?case by simp
next
  case (Suc m)
  then have kn: "k < n" and m: "m = n - Suc k" by simp_all
  have upt: "[k..<n] = k # [Suc k..<n]" using kn by (rule upt_conv_Cons)
  have ev: "events accepting (SectorKey k) = [ack_bytes (SectorKey k) 0]"
    by (simp add: accepting_def)
  have aw: "fst (await_wait (SectorKey k) [ack_bytes (SectorKey k) 0] st') = Inr 0" for st'
    using kn Suc.prems by (intro await_wait_acked [of _ k]) simp_all
  show ?case
    unfolding upt send_sectors_step
    by (simp only: send_packets_accepting ev aw option.case sum.case simp_thms if_False
        Suc.hyps(1) [OF m Suc.prems])
qed

lemma runOta_accepting:
  assumes "ota_file st = Some raw" and "ble st" and "totalS raw \<le> 65536"
  shows "otaStatus (runOta accepting st) = OtaSuccess"
proof -
  have ev: "events accepting k = [ack_bytes k 0]" for k
    by (simp add: accepting_def)
  have w: "cmdWriteError accepting b = None" for b
    by (simp add: accepting_def)
  have aw1: "fst (await_wait (CmdKey 1) [ack_bytes (CmdKey 1) 0] st') = Inr 0" for st'
    by (intro await_wait_acked [of _ 1]) simp_all
  have aw2: "fst (await_wait (CmdKey 2) [ack_bytes (CmdKey 2) 0] st') = Inr 0" for st'
    by (intro await_wait_acked [of _ 2]) simp_all
  have "fst (runOta_try accepting raw st') = None" for st'
    unfolding runOta_try_step
    by (simp only: w ev aw1 aw2 send_sectors_accepting [OF assms(3)] option.case sum.case
        simp_thms if_False fst_conv)
  then show ?thesis
    by (simp add: runOta_status [OF assms(1,2)])
qed

section \<open>Whole runs\<close>

lemmas run_defs = runOta_def runOta_try_def Let_def accepting_def ready_def emit_def
  await_wait_def wait_def startBuf_def finishBuf_def setUint16_le_def setUint32_le_def
  ack_bytes_def handleAck_def getUint16_def call_resolver_def timer_fired_def totalS_def
  ceil_div_def setOtaStatus_def setProgress_def setConnStatus_def addLog_def
  gattserverdisconnected_def SECTOR_SIZE_def sData_def slice_def pkts_def pSize_def pBuf_def
  chunk_def seq_byte_def


lemma ready_fields [simp]:
  "ota_file (ready fm raw) = Some raw" "ble (ready fm raw)" "trace (ready fm raw) = []"
  "fastMode (ready fm raw) = fm" "registry_ok (ready fm raw)" "promises (ready fm raw) = []"
  "progress (ready fm raw) = 0" "logs (ready fm raw) = []"
  by (simp_all add: ready_def registry_ok_def)

section \<open>Order of the sectors\<close>



section \<open>Progress reports\<close>

lemma scenario_5000:
  assumes "length raw = 5000"
  shows "totalS raw = 2" "map length (sectors raw) = [4096, 904]"
    "pkts False (sData raw 0) = 205" "pkts False (sData raw 1) = 46"
proof -
  show n: "totalS raw = 2"
    using assms by (simp add: totalS_def ceil_div_def SECTOR_SIZE_def)
  have l0: "length (sData raw 0) = 4096" and l1: "length (sData raw 1) = 904"
    using assms by (simp_all add: length_sData SECTOR_SIZE_def)
  have u: "[0..<2] = [0, 1]" by code_simp
  show "map length (sectors raw) = [4096, 904]"
    unfolding sectors_def n u using l0 l1 by simp
  show "pkts False (sData raw 0) = 205"
    unfolding pkts_def l0 by (simp add: ceil_div_def pSize_def)
  show "pkts False (sData raw 1) = 46"
    unfolding pkts_def l1 by (simp add: ceil_div_def pSize_def)
qed

lemma js_progress_2: "map (\<lambda>s. js_progress s 2) [0..<2] = [50, 100]"
proof -
  have u: "[0..<2] = [0, 1]" by code_simp
  have "js_progress 0 2 = 50" "js_progress 1 2 = 100" by code_simp+
  then show ?thesis unfolding u by simp
qed

text \<open>
  The model of double rounding at a known value: the double nearest to one tenth is
  \<open>3602879701896397 / 2 ^ 55\<close>.
\<close>

lemma fl_one_tenth: "fl (1 / 10) = 3602879701896397 / 36028797018963968"
  by code_simp

text \<open>
  Double rounding is visible in the reported percentage: after 23 of 40 sectors the
  exact value is 57.5, the double product is just below it, and 57 is reported.
\<close>

lemma js_progress_23_of_40: "js_progress 22 40 = 57"
  by code_simp

lemma runOta_starts:
  assumes "ota_file st = Some raw" and "ble st"
  shows "\<exists>tr. trace (runOta e st) = trace st @ SetOtaStatus OtaRunning # SetProgress 0 # tr"
proof -
  define st0 where "st0 = setProgress 0 (setOtaStatus OtaRunning st)"
  define r where "r = fst (runOta_try e raw st0)"
  define st' where "st' = snd (runOta_try e raw st0)"
  obtain tr where "trace (snd (runOta_try e raw st0)) = trace st0 @ tr
     \<and> prefix (data_writes tr)
          (concat (map (sector_writes (fastMode st0) raw) [0..<totalS raw]))
     \<and> prefix (progress_events tr) (map (\<lambda>s. js_progress s (totalS raw)) [0..<totalS raw])
     \<and> (fst (runOta_try e raw st0) = None \<longrightarrow>
          data_writes tr = concat (map (sector_writes (fastMode st0) raw) [0..<totalS raw])
          \<and> progress_events tr = map (\<lambda>s. js_progress s (totalS raw)) [0..<totalS raw])
     \<and> (registry_ok st0 \<longrightarrow> ordered {} tr)"
    using runOta_try_trace [of e raw st0] ..
  then have t: "trace st' = trace st @ SetOtaStatus OtaRunning # SetProgress 0 # tr"
    by (simp add: st'_def st0_def)
  have run: "runOta e st = (case r of None \<Rightarrow> st'
      | Some err \<Rightarrow> addLog (''Error: '' @ message err) ''error'' (setOtaStatus OtaFailed st'))"
    unfolding r_def st'_def st0_def by (rule runOta_step [OF assms])
  show ?thesis
  proof (cases r)
    case None
    then show ?thesis unfolding run using t by simp
  next
    case (Some err)
    then show ?thesis unfolding run using t
      by (intro exI [of _ "tr @ [SetOtaStatus OtaFailed]"]) simp
  qed
qed

lemma runOta_empty:
  assumes "ota_file st = Some []" and "ble st"
  shows "progress (runOta e st) = 0"
    and "\<exists>tr. trace (runOta e st) = trace st @ tr \<and> data_writes tr = []
          \<and> progress_events tr = [0]"
proof -
  define st0 where "st0 = setProgress 0 (setOtaStatus OtaRunning st)"
  have z: "totalS [] = 0" by (simp add: totalS_def ceil_div_def)
  have "progress (snd (runOta_try e [] st0)) = progress st0"
    using runOta_try_frame [of e "[]" st0] z by simp
  then have p: "progress (snd (runOta_try e [] st0)) = 0" by (simp add: st0_def)
  show "progress (runOta e st) = 0"
    unfolding runOta_step [OF assms] st0_def [symmetric]
    using p by (cases "fst (runOta_try e [] st0)") simp_all
  obtain tr where all: "trace (runOta e st) = trace st @ tr
     \<and> prefix (data_writes tr)
          (concat (map (sector_writes (fastMode st) []) [0..<totalS []]))
     \<and> prefix (progress_events tr)
          (0 # map (\<lambda>s. js_progress s (totalS [])) [0..<totalS []])
     \<and> (otaStatus (runOta e st) = OtaSuccess \<longrightarrow>
          data_writes tr = concat (map (sector_writes (fastMode st) []) [0..<totalS []])
          \<and> progress_events tr = 0 # map (\<lambda>s. js_progress s (totalS [])) [0..<totalS []])
     \<and> (registry_ok st \<longrightarrow> ordered {} tr)"
    using runOta_trace [OF assms, of e] ..
  obtain tr' where s: "trace (runOta e st) = trace st @ SetOtaStatus OtaRunning # SetProgress 0 # tr'"
    using runOta_starts [OF assms, of e] ..
  have a: "trace (runOta e st) = trace st @ tr" using all by simp
  have d: "data_writes tr = []" using all unfolding z by simp
  have "prefix (progress_events tr) [0]" using all unfolding z by simp
  moreover have "tr = SetOtaStatus OtaRunning # SetProgress 0 # tr'" using a s by simp
  ultimately have pe: "progress_events tr = [0]" by simp
  show "\<exists>tr. trace (runOta e st) = trace st @ tr \<and> data_writes tr = []
          \<and> progress_events tr = [0]"
    by (intro exI [of _ tr] conjI; fact a d pe)
qed

lemma empty_run_trace:
  "trace (runOta accepting (ready fm [])) =
     [SetOtaStatus OtaRunning, SetProgress 0, WriteCmd [1, 0, 0, 0, 0, 0],
      Registered (CmdKey 1) 0 12000, AckResolved (CmdKey 1) 0 0,
      WriteCmd [2, 0], Registered (CmdKey 2) 1 12000, AckResolved (CmdKey 2) 1 0,
      SetOtaStatus OtaSuccess]"
  by (simp add: run_defs)

section \<open>How far a reported percentage can be from the exact one\<close>

lemma bit_length_upper: "n < 2 ^ bit_length n"
proof (induction n rule: bit_length.induct)
  case (1 n)
  show ?case
  proof (cases "n = 0")
    case True
    then show ?thesis by simp
  next
    case False
    then have "n div 2 < 2 ^ bit_length (n div 2)" using 1 by simp
    then have "n < 2 * 2 ^ bit_length (n div 2)" by linarith
    moreover have "bit_length n = Suc (bit_length (n div 2))"
      using False by (subst bit_length.simps) simp
    ultimately show ?thesis by simp
  qed
qed

lemma bit_length_lower: "0 < n \<Longrightarrow> 2 ^ (bit_length n - 1) \<le> n"
proof (induction n rule: bit_length.induct)
  case (1 n)
  then have n: "n \<noteq> 0" by simp
  have bl: "bit_length n = Suc (bit_length (n div 2))"
    using n by (subst bit_length.simps) simp
  show ?case
  proof (cases "n div 2 = 0")
    case True
    then have "bit_length (n div 2) = 0" by simp
    then show ?thesis using bl 1(2) by simp
  next
    case False
    then have ih: "2 ^ (bit_length (n div 2) - 1) \<le> n div 2"
      using 1(1) [OF n] by simp
    have pos: "0 < bit_length (n div 2)"
      using False by (subst bit_length.simps) simp
    have "(2::nat) ^ bit_length (n div 2) = 2 * 2 ^ (bit_length (n div 2) - 1)"
      using pos by (cases "bit_length (n div 2)") simp_all
    then have "(2::nat) ^ bit_length (n div 2) \<le> 2 * (n div 2)"
      using ih by simp
    also have "\<dots> \<le> n" by simp
    finally show ?thesis using bl by simp
  qed
qed

lemma binade_le:
  assumes "0 < x"
  shows "2 powi binade x \<le> x"
proof (cases "1 \<le> x")
  case True
  define N where "N = nat \<lfloor>x\<rfloor>"
  have fl1: "1 \<le> \<lfloor>x\<rfloor>" using True by linarith
  then have N: "0 < N" "of_nat N = (of_int \<lfloor>x\<rfloor> :: rat)"
    by (simp_all add: N_def)
  have b: "binade x = int (bit_length N - 1)"
  proof -
    have "0 < bit_length N" using N(1) by (subst bit_length.simps) simp
    then show ?thesis using True by (simp add: binade_def N_def)
  qed
  have "(2::rat) powi binade x = of_nat (2 ^ (bit_length N - 1))"
    unfolding b by simp
  also have "\<dots> \<le> of_nat N"
    using bit_length_lower [OF N(1)] by (simp only: of_nat_le_iff)
  also have "\<dots> \<le> x" unfolding N(2) by simp
  finally show ?thesis .
next
  case False
  then have x1: "x < 1" by simp
  define C where "C = nat (\<lceil>1 / x\<rceil> - 1)"
  have "1 < 1 / x" using assms x1 by simp
  then have c2: "2 \<le> \<lceil>1 / x\<rceil>" by linarith
  have C: "int C + 1 = \<lceil>1 / x\<rceil>" unfolding C_def using c2 by linarith
  have "1 / x \<le> of_int \<lceil>1 / x\<rceil>" by simp
  also have "\<dots> = of_nat (C + 1)" using C by (metis of_int_of_nat_eq of_nat_1 of_nat_add)
  also have "\<dots> \<le> of_nat (2 ^ bit_length C)"
    using bit_length_upper [of C] by (simp only: of_nat_le_iff)
  finally have "1 / x \<le> 2 ^ bit_length C" by simp
  then have "1 / 2 ^ bit_length C \<le> x"
    using assms by (simp add: field_simps)
  moreover have "(2::rat) powi binade x = 1 / 2 ^ bit_length C"
    using False by (simp add: binade_def C_def power_int_minus field_simps)
  ultimately show ?thesis by simp
qed

lemma round_half_even_err: "\<bar>of_int (round_half_even z) - z\<bar> \<le> (1 / 2 :: rat)"
proof -
  have "of_int \<lfloor>z\<rfloor> \<le> z" "z < of_int \<lfloor>z\<rfloor> + 1" by linarith+
  then show ?thesis
    by (auto simp: round_half_even_def Let_def)
qed

lemma fl_err:
  assumes "0 < x"
  shows "\<bar>fl x - x\<bar> \<le> x / 2 ^ 53"
proof -
  define e where "e = binade x - 52"
  define p :: rat where "p = 2 powi e"
  define z where "z = x / p"
  have p: "0 < p" by (simp add: p_def)
  have f: "fl x = of_int (round_half_even z) * p"
    using assms by (simp add: fl_def Let_def e_def p_def z_def)
  have "fl x - x = (of_int (round_half_even z) - z) * p"
    using p by (simp add: f z_def field_simps)
  then have "\<bar>fl x - x\<bar> = \<bar>of_int (round_half_even z) - z\<bar> * p"
    using p by (simp add: abs_mult)
  also have "\<dots> \<le> (1 / 2) * p"
    using round_half_even_err [of z] p by (intro mult_right_mono) simp_all
  also have "\<dots> = 2 powi binade x / 2 ^ 53"
    by (simp add: p_def e_def power_int_diff)
  also have "\<dots> \<le> x / 2 ^ 53"
    using binade_le [OF assms] by (simp add: divide_right_mono)
  finally show ?thesis .
qed

lemma js_progress_near:
  assumes "s < n" and "n \<le> 2 ^ 32"
  shows "\<bar>of_int (js_progress s n) - 100 * of_nat (s + 1) / of_nat n\<bar> \<le> (1 / 2 :: rat)"
proof -
  define a where "a = s + 1"
  define q :: rat where "q = of_nat a / of_nat n"
  define u :: rat where "u = 1 / 2 ^ 53"
  define q1 where "q1 = fl q"
  define x1 where "x1 = q1 * 100"
  define x2 where "x2 = fl x1"
  define y where "y = 100 * q"
  define m where "m = js_progress s n"
  have n: "0 < n" and an: "a \<le> n" and a: "0 < a" using assms(1) by (simp_all add: a_def)
  have nr: "(0::rat) < of_nat n" using n by simp
  have q: "0 < q" "q \<le> 1"
    using a an nr by (simp_all add: q_def)
  have u: "0 < u" "u < 1" by (simp_all add: u_def)
  have e1: "\<bar>q1 - q\<bar> \<le> q * u"
    using fl_err [OF q(1)] by (simp add: q1_def u_def)
  have "q * u \<le> u" using q(2) u(1) by (simp add: mult_left_le_one_le)
  then have e1': "\<bar>q1 - q\<bar> \<le> u" using e1 by linarith
  have "q * u < q" using q(1) u by simp
  then have q1: "0 < q1" using e1 by linarith
  have x1: "0 < x1" using q1 by (simp add: x1_def)
  have e2: "\<bar>x2 - x1\<bar> \<le> x1 * u"
    using fl_err [OF x1] by (simp add: x2_def u_def)
  have d1: "\<bar>x1 - y\<bar> \<le> 100 * u"
  proof -
    have "x1 - y = 100 * (q1 - q)" by (simp add: x1_def y_def algebra_simps)
    then have "\<bar>x1 - y\<bar> = \<bar>100\<bar> * \<bar>q1 - q\<bar>" by (simp only: abs_mult)
    then show ?thesis using e1' by simp
  qed
  have "y \<le> 100" using q(2) by (simp add: y_def)
  then have "x1 \<le> 200" using d1 u(2) by linarith
  then have "x1 * u \<le> 200 * u" using u(1) by simp
  then have d2: "\<bar>x2 - x1\<bar> \<le> 200 * u" using e2 by linarith
  have d: "\<bar>x2 - y\<bar> \<le> 300 * u" using d1 d2 by linarith
  have mdef: "m = \<lfloor>x2 + 1 / 2\<rfloor>"
    by (simp add: m_def js_progress_def Math_round_def x2_def x1_def q1_def q_def a_def)
  have fl: "of_int m \<le> x2 + 1 / 2" "x2 + 1 / 2 < of_int m + 1"
    unfolding mdef by linarith+
  have lo: "of_int m - 1 / 2 - 300 * u \<le> y" and hi: "y < of_int m + 1 / 2 + 300 * u"
    using d fl by linarith+
  have small: "600 * of_nat n * u < 1"
  proof -
    have "(of_nat n :: rat) \<le> 2 ^ 32"
      using assms(2) by (metis of_nat_le_iff of_nat_numeral of_nat_power)
    then have "600 * of_nat n * u \<le> 600 * 2 ^ 32 * u"
      using u(1) by simp
    also have "\<dots> < 1" by (simp add: u_def)
    finally show ?thesis .
  qed
  have yn: "y * (2 * of_nat n) = of_int (200 * int a)"
    using nr by (simp add: y_def q_def)
  have "(of_int m - 1 / 2 - 300 * u) * (2 * of_nat n) \<le> y * (2 * of_nat n)"
    using lo nr by (intro mult_right_mono) simp_all
  then have "of_int (2 * int n * m - int n) - 600 * of_nat n * u \<le> (of_int (200 * int a) :: rat)"
    unfolding yn by (simp add: algebra_simps)
  then have "(of_int (2 * int n * m - int n) :: rat) < of_int (200 * int a) + 1"
    using small by linarith
  then have "2 * int n * m - int n < 200 * int a + 1"
    by (metis of_int_less_iff of_int_add of_int_1)
  then have L: "2 * int n * m - int n \<le> 200 * int a" by simp
  have "y * (2 * of_nat n) < (of_int m + 1 / 2 + 300 * u) * (2 * of_nat n)"
    using hi nr by (intro mult_strict_right_mono) simp_all
  then have "(of_int (200 * int a) :: rat) < of_int (2 * int n * m + int n) + 600 * of_nat n * u"
    unfolding yn by (simp add: algebra_simps)
  then have "(of_int (200 * int a) :: rat) < of_int (2 * int n * m + int n) + 1"
    using small by linarith
  then have "200 * int a < 2 * int n * m + int n + 1"
    by (metis of_int_less_iff of_int_add of_int_1)
  then have U: "200 * int a \<le> 2 * int n * m + int n" by simp
  have "(of_int (2 * int n * m - int n) :: rat) \<le> of_int (200 * int a)"
    using L by (simp only: of_int_le_iff)
  then have "(of_int m - 1 / 2) * (2 * of_nat n) \<le> y * (2 * of_nat n)"
    unfolding yn by (simp add: algebra_simps)
  then have lo': "of_int m - 1 / 2 \<le> y"
    using nr by (simp add: mult_le_cancel_right)
  have "(of_int (200 * int a) :: rat) \<le> of_int (2 * int n * m + int n)"
    using U by (simp only: of_int_le_iff)
  then have "y * (2 * of_nat n) \<le> (of_int m + 1 / 2) * (2 * of_nat n)"
    unfolding yn by (simp add: algebra_simps)
  then have hi': "y \<le> of_int m + 1 / 2"
    using nr by (simp add: mult_le_cancel_right)
  have "\<bar>of_int m - y\<bar> \<le> 1 / 2" using lo' hi' by linarith
  then show ?thesis
    by (simp add: m_def y_def q_def a_def)
qed

lemma near_round:
  assumes "\<bar>of_int m - y\<bar> \<le> (1 / 2 :: rat)"
  shows "m = round y \<or> (m = round y - 1 \<and> of_int (round y) = y + 1 / 2)"
proof -
  define r where "r = round y"
  have r: "of_int r \<le> y + 1 / 2" "y + 1 / 2 < of_int r + 1"
    unfolding r_def round_def by linarith+
  have "of_int m \<le> y + 1 / 2" using assms by linarith
  then have "m \<le> \<lfloor>y + 1 / 2\<rfloor>" by (simp add: le_floor_iff)
  then have up: "m \<le> r" by (simp add: r_def round_def)
  have "of_int r - 1 \<le> (of_int m :: rat)" using assms r by linarith
  then have "(of_int (r - 1) :: rat) \<le> of_int m" by simp
  then have lo: "r - 1 \<le> m" by (simp only: of_int_le_iff)
  show ?thesis
  proof (cases "m = r")
    case True
    then show ?thesis by (simp add: r_def)
  next
    case False
    then have mr: "m = r - 1" using up lo by linarith
    then have "(of_int m :: rat) = of_int r - 1" by simp
    then have "of_int r = y + 1 / 2" using assms r by linarith
    then show ?thesis using mr by (simp add: r_def)
  qed
qed

section \<open>Progress reports follow the acknowledgements\<close>

lemma reports_append:
  "reports n A c (xs @ ys) \<longleftrightarrow>
     reports n A c xs
     \<and> reports n (A \<union> \<Union> (acks_of ` set xs)) (c + length (progress_events xs)) ys"
proof (induction xs arbitrary: A c)
  case Nil
  show ?case by simp
next
  case (Cons a xs)
  have u: "A \<union> acks_of a \<union> \<Union> (acks_of ` set xs) = A \<union> \<Union> (acks_of ` set (a # xs))"
    by auto
  show ?case
  proof (cases a)
    case (SetProgress v)
    then show ?thesis using Cons.IH [of A "Suc c"] by auto
  qed (use Cons.IH [of "A \<union> acks_of a" c] u in simp_all)
qed

lemma reports_quiet: "progress_events tr = [] \<Longrightarrow> reports n A c tr"
proof (induction tr arbitrary: A)
  case Nil
  show ?case by simp
next
  case (Cons a tr)
  then show ?case by (cases a) simp_all
qed

lemma reports_split:
  assumes "reports n A c tr" and "tr = pre @ SetProgress v # post"
  shows "v = js_progress (c + length (progress_events pre)) n
    \<and> (c + length (progress_events pre) \<in> A
        \<or> list_ex (is_ack (SectorKey (c + length (progress_events pre))) 0) pre)"
proof -
  have "reports n (A \<union> \<Union> (acks_of ` set pre)) (c + length (progress_events pre))
          (SetProgress v # post)"
    using assms by (simp add: reports_append)
  then have "c + length (progress_events pre) \<in> A \<union> \<Union> (acks_of ` set pre)"
    and "v = js_progress (c + length (progress_events pre)) n"
    by simp_all
  then show ?thesis
    using acks_of_list [of "c + length (progress_events pre)" pre] by blast
qed

lemma send_sectors_reports:
  "registry_ok st \<Longrightarrow>
   \<exists>tr. trace (snd (send_sectors e fm raw [k..<n] st)) = trace st @ tr
     \<and> reports (totalS raw) A k tr"
proof (induction "n - k" arbitrary: k st A)
  case 0
  then have e: "[k..<n] = []" by simp
  show ?case unfolding e by (intro exI [of _ "[]"]) simp
next
  case (Suc m)
  then have kn: "k < n" and m: "m = n - Suc k" by simp_all
  note ok = Suc.prems
  have upt: "[k..<n] = k # [Suc k..<n]" using kn by (rule upt_conv_Cons)
  define rest where "rest = [Suc k..<n]"
  define sd where "sd = sData raw k"
  define ps where "ps = [0..<pkts fm sd]"
  define jp where "jp = js_progress k (totalS raw)"
  define r1 where "r1 = fst (send_packets e fm k sd ps st)"
  define st1 where "st1 = snd (send_packets e fm k sd ps st)"
  define r2 where "r2 = fst (await_wait (SectorKey k) (events e (SectorKey k)) st1)"
  define st2 where "st2 = snd (await_wait (SectorKey k) (events e (SectorKey k)) st1)"
  define st3 where "st3 = setProgress jp st2"
  have res: "send_sectors e fm raw (k # rest) st =
     (case r1 of Some err \<Rightarrow> (Some err, st1)
      | None \<Rightarrow> (case r2 of Inl err \<Rightarrow> (Some err, st2)
          | Inr status \<Rightarrow> if status \<noteq> 0 then (Some SectorError, st2)
              else send_sectors e fm raw rest st3))"
    unfolding send_sectors_step r1_def r2_def st1_def st2_def st3_def sd_def ps_def jp_def ..
  obtain tr1 where all1: "trace (snd (send_packets e fm k sd ps st)) = trace st @ tr1
     \<and> progress_events tr1 = []
     \<and> \<Union> (acks_of ` set tr1) = {}
     \<and> (k = 0 \<or> k - 1 \<in> A \<longrightarrow> ordered A tr1)
     \<and> prefix (data_writes tr1) (map (\<lambda>p. (k, p, pBuf fm k sd p)) ps)
     \<and> (fst (send_packets e fm k sd ps st) = None
          \<longrightarrow> data_writes tr1 = map (\<lambda>p. (k, p, pBuf fm k sd p)) ps)"
    using send_packets_trace [of e fm k sd ps st A] ..
  have t1: "trace st1 = trace st @ tr1" "progress_events tr1 = []"
    using all1 unfolding st1_def by simp_all
  have ok1: "registry_ok st1"
    using ok by (simp add: st1_def registry_ok_def)
  obtain tr2 where all2: "trace (snd (await_wait (SectorKey k) (events e (SectorKey k)) st1))
        = trace st1 @ tr2
     \<and> data_writes tr2 = [] \<and> progress_events tr2 = []
     \<and> (\<forall>s. registry_ok st1 \<and> fst (await_wait (SectorKey k) (events e (SectorKey k)) st1) = Inr s
           \<longrightarrow> list_ex (is_ack (SectorKey k) s) tr2)
     \<and> (\<forall>err. fst (await_wait (SectorKey k) (events e (SectorKey k)) st1) = Inl err
           \<longrightarrow> err = AckTimeout)"
    using await_wait_trace [of "SectorKey k" "events e (SectorKey k)" st1] ..
  have t2: "trace st2 = trace st1 @ tr2" "progress_events tr2 = []"
    "\<And>s. r2 = Inr s \<Longrightarrow> list_ex (is_ack (SectorKey k) s) tr2"
    using all2 ok1 unfolding st2_def r2_def by simp_all
  have t12: "trace st2 = trace st @ (tr1 @ tr2)" using t1(1) t2(1) by simp
  have q12: "reports (totalS raw) A k (tr1 @ tr2)"
    using t1(2) t2(2) by (intro reports_quiet) simp
  have q1: "reports (totalS raw) A k tr1"
    using t1(2) by (rule reports_quiet)
  show ?case
  proof (cases r1)
    case (Some err)
    have r: "send_sectors e fm raw (k # rest) st = (Some err, st1)"
      unfolding res using Some by simp
    show ?thesis
      unfolding upt rest_def [symmetric] r using t1(1) q1
      by (intro exI [of _ tr1]) simp
  next
    case None
    show ?thesis
    proof (cases "r2 = Inr 0")
      case False
      then obtain err where r: "send_sectors e fm raw (k # rest) st = (Some err, st2)"
        unfolding res using None by (cases r2) auto
      show ?thesis
        unfolding upt rest_def [symmetric] r using t12 q12
        by (intro exI [of _ "tr1 @ tr2"]) simp
    next
      case True
      have r: "send_sectors e fm raw (k # rest) st = send_sectors e fm raw rest st3"
        unfolding res using None True by simp
      define A' where "A' = A \<union> \<Union> (acks_of ` set (tr1 @ tr2))"
      have ok3: "registry_ok st3"
      proof -
        have "registry_ok st2"
          unfolding st2_def using ok1 by (rule registry_ok_await_wait)
        then show ?thesis by (simp add: st3_def registry_ok_def)
      qed
      obtain tr3 where all3:
        "trace (snd (send_sectors e fm raw [Suc k..<n] st3)) = trace st3 @ tr3
         \<and> reports (totalS raw) A' (Suc k) tr3"
        using Suc.hyps(1) [OF m ok3, of A'] ..
      have t3: "trace (snd (send_sectors e fm raw rest st3)) = trace st3 @ tr3"
        "reports (totalS raw) A' (Suc k) tr3"
        using all3 unfolding rest_def by simp_all
      have "list_ex (is_ack (SectorKey k) 0) tr2" using t2(3) True by simp
      then have "k \<in> \<Union> (acks_of ` set tr2)" by (simp only: acks_of_list)
      then have kA: "k \<in> A'" by (simp add: A'_def)
      have pe: "length (progress_events (tr1 @ tr2)) = 0" using t1(2) t2(2) by simp
      define tr where "tr = (tr1 @ tr2) @ SetProgress jp # tr3"
      have a: "trace (snd (send_sectors e fm raw rest st3)) = trace st @ tr"
        using t3(1) t12 by (simp add: st3_def tr_def)
      have "reports (totalS raw) A' (k + length (progress_events (tr1 @ tr2)))
              (SetProgress jp # tr3)"
        unfolding pe using kA t3(2) by (simp add: jp_def)
      then have b: "reports (totalS raw) A k tr"
        unfolding tr_def A'_def using q12 by (subst reports_append) simp
      show ?thesis
        unfolding upt rest_def [symmetric] r using a b by (intro exI [of _ tr]) simp
    qed
  qed
qed

lemma reports_sandwich:
  assumes "progress_events pre = []" and "progress_events post = []"
    and "reports n (\<Union> (acks_of ` set pre)) 0 trS"
  shows "reports n {} 0 (pre @ trS @ post)"
proof -
  have "reports n {} 0 pre" using assms(1) by (rule reports_quiet)
  moreover have "reports n ({} \<union> \<Union> (acks_of ` set pre) \<union> \<Union> (acks_of ` set trS))
      (0 + length (progress_events pre) + length (progress_events trS)) post"
    using assms(2) by (rule reports_quiet)
  ultimately show ?thesis
    using assms(1,3) by (simp add: reports_append)
qed

lemma runOta_try_reports:
  assumes "registry_ok st"
  shows "\<exists>tr. trace (snd (runOta_try e raw st)) = trace st @ tr
     \<and> reports (totalS raw) {} 0 tr"
proof -
  define sb where "sb = startBuf (length raw)"
  define st1 where "st1 = emit (WriteCmd sb) st"
  define r2 where "r2 = fst (await_wait (CmdKey 1) (events e (CmdKey 1)) st1)"
  define st2 where "st2 = snd (await_wait (CmdKey 1) (events e (CmdKey 1)) st1)"
  define r3 where "r3 = fst (send_sectors e (fastMode st) raw [0..<totalS raw] st2)"
  define st3 where "st3 = snd (send_sectors e (fastMode st) raw [0..<totalS raw] st2)"
  define st4 where "st4 = emit (WriteCmd finishBuf) st3"
  define r5 where "r5 = fst (await_wait (CmdKey 2) (events e (CmdKey 2)) st4)"
  define st5 where "st5 = snd (await_wait (CmdKey 2) (events e (CmdKey 2)) st4)"
  define st6 where "st6 = setOtaStatus OtaSuccess st5"
  have res: "runOta_try e raw st =
     (case cmdWriteError e sb of
        Some m \<Rightarrow> (Some (TransportError m), st1)
      | None \<Rightarrow>
          (case r2 of
             Inl err \<Rightarrow> (Some err, st2)
           | Inr status \<Rightarrow>
               if status \<noteq> 0 then (Some Rejected, st2)
               else
                 (case r3 of
                    Some err \<Rightarrow> (Some err, st3)
                  | None \<Rightarrow>
                      (case cmdWriteError e finishBuf of
                         Some m \<Rightarrow> (Some (TransportError m), st4)
                       | None \<Rightarrow>
                           (case r5 of
                              Inl err \<Rightarrow> (Some err, st5)
                            | Inr status \<Rightarrow> (None, st6))))))"
    unfolding runOta_try_step sb_def st1_def r2_def st2_def r3_def st3_def st4_def r5_def
      st5_def st6_def ..
  obtain trA where allA: "trace (snd (await_wait (CmdKey 1) (events e (CmdKey 1)) st1))
        = trace st1 @ trA
     \<and> data_writes trA = [] \<and> progress_events trA = []
     \<and> (\<forall>s. registry_ok st1 \<and> fst (await_wait (CmdKey 1) (events e (CmdKey 1)) st1) = Inr s
           \<longrightarrow> list_ex (is_ack (CmdKey 1) s) trA)
     \<and> (\<forall>err. fst (await_wait (CmdKey 1) (events e (CmdKey 1)) st1) = Inl err
           \<longrightarrow> err = AckTimeout)"
    using await_wait_trace [of "CmdKey 1" "events e (CmdKey 1)" st1] ..
  define pre where "pre = WriteCmd sb # trA"
  have pre: "trace st2 = trace st @ pre" "progress_events pre = []"
    using allA by (simp_all add: pre_def st1_def st2_def)
  have ok2: "registry_ok st2"
  proof -
    have "registry_ok st1" using assms by (simp add: st1_def registry_ok_def)
    then show ?thesis unfolding st2_def by (rule registry_ok_await_wait)
  qed
  obtain trS where allS:
    "trace (snd (send_sectors e (fastMode st) raw [0..<totalS raw] st2)) = trace st2 @ trS
     \<and> reports (totalS raw) (\<Union> (acks_of ` set pre)) 0 trS"
    using send_sectors_reports [OF ok2, of e "fastMode st" raw 0 "totalS raw"
        "\<Union> (acks_of ` set pre)"] ..
  have tS: "trace st3 = trace st2 @ trS" "reports (totalS raw) (\<Union> (acks_of ` set pre)) 0 trS"
    using allS unfolding st3_def by simp_all
  obtain trB where allB: "trace (snd (await_wait (CmdKey 2) (events e (CmdKey 2)) st4))
        = trace st4 @ trB
     \<and> data_writes trB = [] \<and> progress_events trB = []
     \<and> (\<forall>s. registry_ok st4 \<and> fst (await_wait (CmdKey 2) (events e (CmdKey 2)) st4) = Inr s
           \<longrightarrow> list_ex (is_ack (CmdKey 2) s) trB)
     \<and> (\<forall>err. fst (await_wait (CmdKey 2) (events e (CmdKey 2)) st4) = Inl err
           \<longrightarrow> err = AckTimeout)"
    using await_wait_trace [of "CmdKey 2" "events e (CmdKey 2)" st4] ..
  have tB: "trace st5 = trace st4 @ trB" "progress_events trB = []"
    using allB unfolding st5_def by simp_all
  have shape: "\<And>post. progress_events post = [] \<Longrightarrow>
      reports (totalS raw) {} 0 (pre @ trS @ post)"
    using pre(2) tS(2) by (intro reports_sandwich)
  have early: "reports (totalS raw) {} 0 pre" "reports (totalS raw) {} 0 [WriteCmd sb]"
    using pre(2) by (simp_all add: reports_quiet)
  have t3: "trace st3 = trace st @ pre @ trS @ []"
    using pre(1) tS(1) by simp
  have t4: "trace st4 = trace st @ pre @ trS @ [WriteCmd finishBuf]"
    using pre(1) tS(1) by (simp add: st4_def)
  have t5: "trace st5 = trace st @ pre @ trS @ (WriteCmd finishBuf # trB)"
    using t4 tB(1) by simp
  have t6: "trace st6 = trace st @ pre @ trS @ (WriteCmd finishBuf # trB @ [SetOtaStatus OtaSuccess])"
    using t5 by (simp add: st6_def)
  have q: "progress_events ([]::action list) = []"
    "progress_events [WriteCmd finishBuf] = []"
    "progress_events (WriteCmd finishBuf # trB) = []"
    "progress_events (WriteCmd finishBuf # trB @ [SetOtaStatus OtaSuccess]) = []"
    using tB(2) by simp_all
  show ?thesis
  proof (cases "cmdWriteError e sb")
    case (Some m)
    have r: "runOta_try e raw st = (Some (TransportError m), st1)"
      unfolding res using Some by simp
    show ?thesis
      unfolding r using early(2) by (intro exI [of _ "[WriteCmd sb]"]) (simp add: st1_def)
  next
    case w1: None
    show ?thesis
    proof (cases "r2 = Inr 0")
      case False
      then obtain err where r: "runOta_try e raw st = (Some err, st2)"
        unfolding res using w1 by (cases r2) auto
      show ?thesis
        unfolding r using early(1) pre(1) by (intro exI [of _ pre]) simp
    next
      case True
      show ?thesis
      proof (cases r3)
        case (Some err)
        have r: "runOta_try e raw st = (Some err, st3)"
          unfolding res using w1 True Some by simp
        show ?thesis
          unfolding r using shape [OF q(1)] t3
          by (intro exI [of _ "pre @ trS @ []"]) simp
      next
        case r3: None
        show ?thesis
        proof (cases "cmdWriteError e finishBuf")
          case (Some m)
          have r: "runOta_try e raw st = (Some (TransportError m), st4)"
            unfolding res using w1 True r3 Some by simp
          show ?thesis
            unfolding r using shape [OF q(2)] t4
            by (intro exI [of _ "pre @ trS @ [WriteCmd finishBuf]"]) simp
        next
          case w2: None
          show ?thesis
          proof (cases r5)
            case (Inl err)
            have r: "runOta_try e raw st = (Some err, st5)"
              unfolding res using w1 True r3 w2 Inl by simp
            show ?thesis
              unfolding r using shape [OF q(3)] t5
              by (intro exI [of _ "pre @ trS @ (WriteCmd finishBuf # trB)"]) simp
          next
            case (Inr status)
            have r: "runOta_try e raw st = (None, st6)"
              unfolding res using w1 True r3 w2 Inr by simp
            show ?thesis
              unfolding r using shape [OF q(4)] t6
              by (intro exI [of _ "pre @ trS @ (WriteCmd finishBuf # trB @ [SetOtaStatus OtaSuccess])"]) simp
          qed
        qed
      qed
    qed
  qed
qed

lemma runOta_reports:
  assumes "ota_file st = Some raw" and "ble st" and "registry_ok st"
  shows "\<exists>tr. trace (runOta e st) = trace st @ SetOtaStatus OtaRunning # SetProgress 0 # tr
     \<and> reports (totalS raw) {} 0 tr"
proof -
  define st0 where "st0 = setProgress 0 (setOtaStatus OtaRunning st)"
  define r where "r = fst (runOta_try e raw st0)"
  define st' where "st' = snd (runOta_try e raw st0)"
  have ok0: "registry_ok st0" using assms(3) by (simp add: st0_def registry_ok_def)
  obtain tr where all: "trace (snd (runOta_try e raw st0)) = trace st0 @ tr
     \<and> reports (totalS raw) {} 0 tr"
    using runOta_try_reports [OF ok0, of e raw] ..
  have t: "trace st' = trace st @ SetOtaStatus OtaRunning # SetProgress 0 # tr"
    "reports (totalS raw) {} 0 tr"
    using all by (simp_all add: st'_def st0_def)
  have run: "runOta e st = (case r of None \<Rightarrow> st'
      | Some err \<Rightarrow> addLog (''Error: '' @ message err) ''error'' (setOtaStatus OtaFailed st'))"
    unfolding r_def st'_def st0_def by (rule runOta_step [OF assms(1,2)])
  show ?thesis
  proof (cases r)
    case None
    then show ?thesis unfolding run using t by (intro exI [of _ tr]) simp
  next
    case (Some err)
    have "reports (totalS raw) {} 0 (tr @ [SetOtaStatus OtaFailed])"
      using t(2) by (simp add: reports_append)
    then show ?thesis unfolding run using Some t(1)
      by (intro exI [of _ "tr @ [SetOtaStatus OtaFailed]"]) simp
  qed
qed

text \<open>
  Claim C7, as the code has it. In every run of a chosen file on a connected device,
  after the reset to 0 at the start, the progress values reported are, sector by
  sector, \<^verbatim>\<open>Math.round(((s + 1) / totalS) * 100)\<close> in double arithmetic
  (\<open>js_progress s totalS\<close>) for the sectors acknowledged so far, and a run that succeeds
  has reported all of them. Each report comes after the acknowledgement of its sector
  with status 0. The reported value is an integer within one half of the exact
  percentage \<open>100 * (s + 1) / totalS\<close>: it is the exact percentage rounded to the nearest
  integer, except that at an exact tie it can be the integer below. For an image of 5000
  bytes in safe mode there are 2 sectors of 4096 and 904 bytes, sent in 205 and 46
  packets, and a successful run reports 50 and then 100.
\<close>

theorem progress_reports:
  assumes "ota_file st = Some raw" and "ble st"
  shows "\<exists>tr. trace (runOta e st) = trace st @ SetOtaStatus OtaRunning # SetProgress 0 # tr
     \<and> prefix (progress_events tr) (map (\<lambda>s. js_progress s (totalS raw)) [0..<totalS raw])
     \<and> (otaStatus (runOta e st) = OtaSuccess \<longrightarrow>
          progress_events tr = map (\<lambda>s. js_progress s (totalS raw)) [0..<totalS raw])
     \<and> (registry_ok st \<longrightarrow>
          (\<forall>pre v post. tr = pre @ SetProgress v # post \<longrightarrow>
             v = js_progress (length (progress_events pre)) (totalS raw)
             \<and> list_ex (is_ack (SectorKey (length (progress_events pre))) 0) pre))
     \<and> (totalS raw \<le> 2 ^ 32 \<longrightarrow>
          (\<forall>s < totalS raw.
             \<bar>of_int (js_progress s (totalS raw))
                - 100 * of_nat (s + 1) / of_nat (totalS raw)\<bar> \<le> (1 / 2 :: rat)
             \<and> (js_progress s (totalS raw)
                   = round (100 * of_nat (s + 1) / of_nat (totalS raw) :: rat)
                 \<or> js_progress s (totalS raw)
                     = round (100 * of_nat (s + 1) / of_nat (totalS raw) :: rat) - 1
                   \<and> of_int (round (100 * of_nat (s + 1) / of_nat (totalS raw) :: rat))
                     = 100 * of_nat (s + 1) / of_nat (totalS raw) + (1 / 2 :: rat))))
     \<and> (length raw = 5000 \<longrightarrow>
          totalS raw = 2 \<and> map length (sectors raw) = [4096, 904]
          \<and> pkts False (sData raw 0) = 205 \<and> pkts False (sData raw 1) = 46
          \<and> (otaStatus (runOta e st) = OtaSuccess \<longrightarrow> progress_events tr = [50, 100]))"
proof -
  define P where "P = map (\<lambda>s. js_progress s (totalS raw)) [0..<totalS raw]"
  obtain tr where s: "trace (runOta e st) = trace st @ SetOtaStatus OtaRunning # SetProgress 0 # tr"
    using runOta_starts [OF assms, of e] ..
  obtain tr0 where all: "trace (runOta e st) = trace st @ tr0
     \<and> prefix (data_writes tr0)
          (concat (map (sector_writes (fastMode st) raw) [0..<totalS raw]))
     \<and> prefix (progress_events tr0)
          (0 # map (\<lambda>s. js_progress s (totalS raw)) [0..<totalS raw])
     \<and> (otaStatus (runOta e st) = OtaSuccess \<longrightarrow>
          data_writes tr0 = concat (map (sector_writes (fastMode st) raw) [0..<totalS raw])
          \<and> progress_events tr0 = 0 # map (\<lambda>s. js_progress s (totalS raw)) [0..<totalS raw])
     \<and> (registry_ok st \<longrightarrow> ordered {} tr0)"
    using runOta_trace [OF assms, of e] ..
  have tr0: "tr0 = SetOtaStatus OtaRunning # SetProgress 0 # tr" using all s by simp
  have pe0: "progress_events tr0 = 0 # progress_events tr" unfolding tr0 by simp
  have b: "prefix (progress_events tr) P"
    using all unfolding pe0 P_def by simp
  have c: "otaStatus (runOta e st) = OtaSuccess \<longrightarrow> progress_events tr = P"
    using all unfolding pe0 P_def by simp
  have d: "registry_ok st \<longrightarrow>
          (\<forall>pre v post. tr = pre @ SetProgress v # post \<longrightarrow>
             v = js_progress (length (progress_events pre)) (totalS raw)
             \<and> list_ex (is_ack (SectorKey (length (progress_events pre))) 0) pre)"
  proof
    assume ok: "registry_ok st"
    obtain tr' where r: "trace (runOta e st)
          = trace st @ SetOtaStatus OtaRunning # SetProgress 0 # tr'
       \<and> reports (totalS raw) {} 0 tr'"
      using runOta_reports [OF assms ok, of e] ..
    then have "tr' = tr" using s by simp
    then have rep: "reports (totalS raw) {} 0 tr" using r by simp
    show "\<forall>pre v post. tr = pre @ SetProgress v # post \<longrightarrow>
             v = js_progress (length (progress_events pre)) (totalS raw)
             \<and> list_ex (is_ack (SectorKey (length (progress_events pre))) 0) pre"
      using reports_split [OF rep] by auto
  qed
  have f: "totalS raw \<le> 2 ^ 32 \<longrightarrow>
          (\<forall>s < totalS raw.
             \<bar>of_int (js_progress s (totalS raw))
                - 100 * of_nat (s + 1) / of_nat (totalS raw)\<bar> \<le> (1 / 2 :: rat)
             \<and> (js_progress s (totalS raw)
                   = round (100 * of_nat (s + 1) / of_nat (totalS raw) :: rat)
                 \<or> js_progress s (totalS raw)
                     = round (100 * of_nat (s + 1) / of_nat (totalS raw) :: rat) - 1
                   \<and> of_int (round (100 * of_nat (s + 1) / of_nat (totalS raw) :: rat))
                     = 100 * of_nat (s + 1) / of_nat (totalS raw) + (1 / 2 :: rat)))"
    using js_progress_near near_round by blast
  have g: "length raw = 5000 \<longrightarrow>
          totalS raw = 2 \<and> map length (sectors raw) = [4096, 904]
          \<and> pkts False (sData raw 0) = 205 \<and> pkts False (sData raw 1) = 46
          \<and> (otaStatus (runOta e st) = OtaSuccess \<longrightarrow> progress_events tr = [50, 100])"
  proof
    assume l: "length raw = 5000"
    have "otaStatus (runOta e st) = OtaSuccess \<longrightarrow> progress_events tr = [50, 100]"
      using c unfolding P_def scenario_5000(1) [OF l] js_progress_2 .
    then show "totalS raw = 2 \<and> map length (sectors raw) = [4096, 904]
          \<and> pkts False (sData raw 0) = 205 \<and> pkts False (sData raw 1) = 46
          \<and> (otaStatus (runOta e st) = OtaSuccess \<longrightarrow> progress_events tr = [50, 100])"
      using scenario_5000 [OF l] by simp
  qed
  show ?thesis
    unfolding P_def [symmetric]
    by (intro exI [of _ tr] conjI; fact s b c d f [folded P_def] g)
qed

theorem progress_reports_witness:
  "ota_file (ready False (replicate 5000 0)) = Some (replicate 5000 0)
   \<and> ble (ready False (replicate 5000 0))
   \<and> registry_ok (ready False (replicate 5000 0))
   \<and> length (replicate 5000 (0::byte)) = 5000
   \<and> totalS (replicate 5000 0) \<le> 2 ^ 32
   \<and> otaStatus (runOta accepting (ready False (replicate 5000 0))) = OtaSuccess
   \<and> progress_events (trace (runOta accepting (ready False (replicate 5000 0)))) = [0, 50, 100]
   \<and> \<bar>of_int (js_progress 0 (totalS (replicate 5000 0)))
        - 100 * of_nat (0 + 1) / of_nat (totalS (replicate 5000 0))\<bar> \<le> (1 / 2 :: rat)"
proof -
  define r :: "byte list" where "r = replicate 5000 0"
  define st where "st = ready False r"
  have h: "ota_file st = Some r" "ble st" "trace st = []" "length r = 5000" "registry_ok st"
    by (simp_all add: st_def r_def)
  have n: "totalS r = 2" using h(4) by (rule scenario_5000(1))
  have ok: "otaStatus (runOta accepting st) = OtaSuccess"
    using h(1,2) by (rule runOta_accepting) (simp add: n)
  obtain tr where all: "trace (runOta accepting st)
        = trace st @ SetOtaStatus OtaRunning # SetProgress 0 # tr
     \<and> prefix (progress_events tr) (map (\<lambda>s. js_progress s (totalS r)) [0..<totalS r])
     \<and> (otaStatus (runOta accepting st) = OtaSuccess \<longrightarrow>
          progress_events tr = map (\<lambda>s. js_progress s (totalS r)) [0..<totalS r])
     \<and> (registry_ok st \<longrightarrow>
          (\<forall>pre v post. tr = pre @ SetProgress v # post \<longrightarrow>
             v = js_progress (length (progress_events pre)) (totalS r)
             \<and> list_ex (is_ack (SectorKey (length (progress_events pre))) 0) pre))
     \<and> (totalS r \<le> 2 ^ 32 \<longrightarrow>
          (\<forall>s < totalS r.
             \<bar>of_int (js_progress s (totalS r))
                - 100 * of_nat (s + 1) / of_nat (totalS r)\<bar> \<le> (1 / 2 :: rat)
             \<and> (js_progress s (totalS r)
                   = round (100 * of_nat (s + 1) / of_nat (totalS r) :: rat)
                 \<or> js_progress s (totalS r)
                     = round (100 * of_nat (s + 1) / of_nat (totalS r) :: rat) - 1
                   \<and> of_int (round (100 * of_nat (s + 1) / of_nat (totalS r) :: rat))
                     = 100 * of_nat (s + 1) / of_nat (totalS r) + (1 / 2 :: rat))))
     \<and> (length r = 5000 \<longrightarrow>
          totalS r = 2 \<and> map length (sectors r) = [4096, 904]
          \<and> pkts False (sData r 0) = 205 \<and> pkts False (sData r 1) = 46
          \<and> (otaStatus (runOta accepting st) = OtaSuccess \<longrightarrow> progress_events tr = [50, 100]))"
    using progress_reports [OF h(1,2), of accepting] ..
  have le: "totalS r \<le> 2 ^ 32" by (simp add: n)
  have t: "trace (runOta accepting st) = SetOtaStatus OtaRunning # SetProgress 0 # tr"
    using all h(3) by simp
  note c5 = all [THEN conjunct2, THEN conjunct2, THEN conjunct2, THEN conjunct2, THEN conjunct1]
  note c6 = all [THEN conjunct2, THEN conjunct2, THEN conjunct2, THEN conjunct2, THEN conjunct2]
  have "progress_events tr = [50, 100]" using c6 ok h(4) by blast
  then have pe: "progress_events (trace (runOta accepting st)) = [0, 50, 100]"
    unfolding t by simp
  have "\<forall>s < totalS r.
             \<bar>of_int (js_progress s (totalS r))
                - 100 * of_nat (s + 1) / of_nat (totalS r)\<bar> \<le> (1 / 2 :: rat)"
    using c5 le by blast
  then have nr: "\<bar>of_int (js_progress 0 (totalS r))
        - 100 * of_nat (0 + 1) / of_nat (totalS r)\<bar> \<le> (1 / 2 :: rat)"
    unfolding n by (metis pos2)
  show ?thesis
    using h ok pe nr le unfolding st_def r_def by simp
qed

text \<open>
  Claim C7 as stated, the report is the exact percentage rounded, fails on an image of
  40 sectors: the run succeeds, the report after sector 22 (23 of 40 sectors, exactly
  57.5) is 57, and \<open>round (100 * (23 / 40))\<close> is 58.
\<close>

theorem progress_reports_counterexample:
  "otaStatus (runOta accepting (ready True (replicate 163840 0))) = OtaSuccess
   \<and> progress_events (trace (runOta accepting (ready True (replicate 163840 0)))) ! 23 = 57
   \<and> round (100 * (23 / 40) :: rat) = 58"
proof -
  define r :: "byte list" where "r = replicate 163840 0"
  define st where "st = ready True r"
  have h: "ota_file st = Some r" "ble st" "trace st = []"
    by (simp_all add: st_def)
  have n: "totalS r = 40"
    by (simp add: r_def totalS_def ceil_div_def SECTOR_SIZE_def)
  have ok: "otaStatus (runOta accepting st) = OtaSuccess"
    using h(1,2) by (rule runOta_accepting) (simp add: n)
  obtain tr0 where all: "trace (runOta accepting st) = trace st @ tr0
     \<and> prefix (data_writes tr0)
          (concat (map (sector_writes (fastMode st) r) [0..<totalS r]))
     \<and> prefix (progress_events tr0)
          (0 # map (\<lambda>s. js_progress s (totalS r)) [0..<totalS r])
     \<and> (otaStatus (runOta accepting st) = OtaSuccess \<longrightarrow>
          data_writes tr0 = concat (map (sector_writes (fastMode st) r) [0..<totalS r])
          \<and> progress_events tr0 = 0 # map (\<lambda>s. js_progress s (totalS r)) [0..<totalS r])
     \<and> (registry_ok st \<longrightarrow> ordered {} tr0)"
    using runOta_trace [OF h(1,2), of accepting] ..
  have "progress_events (trace (runOta accepting st))
      = 0 # map (\<lambda>s. js_progress s 40) [0..<40]"
    using all ok h(3) unfolding n by simp
  then have "progress_events (trace (runOta accepting st)) ! 23 = js_progress 22 40"
    by simp
  then have a: "progress_events (trace (runOta accepting st)) ! 23 = 57"
    by (simp only: js_progress_23_of_40)
  have b: "round (100 * (23 / 40) :: rat) = 58" by (simp add: round_def)
  show ?thesis using ok a b unfolding st_def r_def by simp
qed

section \<open>The empty image\<close>

text \<open>
  Claim C6, as the code has it. A run on a 0-byte image writes no data packet and
  reports no progress but the reset to 0 at its start, so the progress value it ends
  with is 0; on a device that accepts everything it sends the start command, gets its
  acknowledgement, sends the finish command at once, gets its acknowledgement, and ends
  with the status \<^verbatim>\<open>'success'\<close>.
\<close>

theorem empty_image_run:
  assumes "ota_file st = Some []" and "ble st"
  shows "\<exists>tr. trace (runOta e st) = trace st @ tr
     \<and> data_writes tr = [] \<and> progress_events tr = [0]
     \<and> progress (runOta e st) = 0
     \<and> otaStatus (runOta accepting st) = OtaSuccess
     \<and> trace (runOta accepting (ready fm [])) =
         [SetOtaStatus OtaRunning, SetProgress 0, WriteCmd [1, 0, 0, 0, 0, 0],
          Registered (CmdKey 1) 0 12000, AckResolved (CmdKey 1) 0 0,
          WriteCmd [2, 0], Registered (CmdKey 2) 1 12000, AckResolved (CmdKey 2) 1 0,
          SetOtaStatus OtaSuccess]"
proof -
  obtain tr where all: "trace (runOta e st) = trace st @ tr \<and> data_writes tr = []
          \<and> progress_events tr = [0]"
    using runOta_empty(2) [OF assms, of e] ..
  have a: "trace (runOta e st) = trace st @ tr" "data_writes tr = []"
    "progress_events tr = [0]"
    using all by simp_all
  have b: "progress (runOta e st) = 0" by (rule runOta_empty(1) [OF assms])
  have c: "otaStatus (runOta accepting st) = OtaSuccess"
    using assms by (rule runOta_accepting) (simp add: totalS_def ceil_div_def)
  show ?thesis
    by (intro exI [of _ tr] conjI; fact a b c empty_run_trace)
qed

theorem empty_image_run_witness:
  "ota_file (ready False []) = Some [] \<and> ble (ready False [])
   \<and> progress_events (trace (runOta accepting (ready False []))) = [0]
   \<and> progress (runOta accepting (ready False [])) = 0
   \<and> otaStatus (runOta accepting (ready False [])) = OtaSuccess"
proof -
  have h: "ota_file (ready False []) = Some []" "ble (ready False [])" by simp_all
  obtain tr where all: "trace (runOta accepting (ready False [])) = trace (ready False []) @ tr
     \<and> data_writes tr = [] \<and> progress_events tr = [0]
     \<and> progress (runOta accepting (ready False [])) = 0
     \<and> otaStatus (runOta accepting (ready False [])) = OtaSuccess
     \<and> trace (runOta accepting (ready False [])) =
         [SetOtaStatus OtaRunning, SetProgress 0, WriteCmd [1, 0, 0, 0, 0, 0],
          Registered (CmdKey 1) 0 12000, AckResolved (CmdKey 1) 0 0,
          WriteCmd [2, 0], Registered (CmdKey 2) 1 12000, AckResolved (CmdKey 2) 1 0,
          SetOtaStatus OtaSuccess]"
    using empty_image_run [OF h, of accepting False] ..
  then show ?thesis using h by simp
qed

text \<open>
  Claim C6 as stated, final progress 100, fails on the accepting device: the run
  succeeds and the progress value is 0.
\<close>

theorem empty_image_counterexample:
  "otaStatus (runOta accepting (ready False [])) = OtaSuccess
   \<and> progress (runOta accepting (ready False [])) \<noteq> 100"
proof -
  have h: "ota_file (ready False []) = Some []" "ble (ready False [])" by simp_all
  have "otaStatus (runOta accepting (ready False [])) = OtaSuccess"
    using h by (rule runOta_accepting) (simp add: totalS_def ceil_div_def)
  moreover have "progress (runOta accepting (ready False [])) = 0"
    by (rule runOta_empty(1) [OF h])
  ultimately show ?thesis by simp
qed

section \<open>The finish acknowledgement\<close>

text \<open>
  Claim C1. The status of the finish acknowledgement is not looked at. A device answers
  the start command and the only sector of a 3-byte image with status 0 and the finish
  command with status 1: the run ends with the status \<^verbatim>\<open>'success'\<close>. The same
  status 1 in answer to the start command ends the run with \<^verbatim>\<open>'failed'\<close> and the
  message \<^verbatim>\<open>'Error: Rejected'\<close>.
\<close>

theorem finish_status_ignored:
  "trace (runOta (accepting\<lparr>events := \<lambda>k. [ack_bytes k (if k = CmdKey 2 then 1 else 0)]\<rparr>)
      (ready False [1, 2, 3])) =
     [SetOtaStatus OtaRunning, SetProgress 0, WriteCmd [1, 0, 3, 0, 0, 0],
      Registered (CmdKey 1) 0 12000, AckResolved (CmdKey 1) 0 0,
      WriteData 0 0 [0, 0, 255, 1, 2, 3], Sleep 12, Registered (SectorKey 0) 1 12000,
      AckResolved (SectorKey 0) 1 0, SetProgress 100, WriteCmd [2, 0],
      Registered (CmdKey 2) 2 12000, AckResolved (CmdKey 2) 2 1,
      SetOtaStatus OtaSuccess]
   \<and> otaStatus (runOta
        (accepting\<lparr>events := \<lambda>k. [ack_bytes k (if k = CmdKey 2 then 1 else 0)]\<rparr>)
        (ready False [1, 2, 3])) = OtaSuccess
   \<and> otaStatus (runOta
        (accepting\<lparr>events := \<lambda>k. [ack_bytes k (if k = CmdKey 1 then 1 else 0)]\<rparr>)
        (ready False [1, 2, 3])) = OtaFailed
   \<and> logs (runOta
        (accepting\<lparr>events := \<lambda>k. [ack_bytes k (if k = CmdKey 1 then 1 else 0)]\<rparr>)
        (ready False [1, 2, 3])) = [(''Error: Rejected'', ''error'')]"
proof -
  have p: "js_progress 0 (Suc 0) = 100" by code_simp
  show ?thesis
    by (simp add: run_defs p)
qed

lemma await_wait_no_ack:
  "fst (await_wait k [] st) = Inl AckTimeout"
  "trace (snd (await_wait k [] st))
     = trace st @ [Registered k (length (promises st)) 12000, TimerFired (length (promises st))]"
  "fst (await_wait k [GattDisconnected] st) = Inl AckTimeout"
  "trace (snd (await_wait k [GattDisconnected] st))
     = trace st @ [Registered k (length (promises st)) 12000, SetConnStatus ConnIdle,
                   SetOtaStatus OtaIdle, TimerFired (length (promises st))]"
  "otaStatus (snd (await_wait k [GattDisconnected] st)) = OtaIdle"
  by (simp_all add: await_wait_unfold timer_fired_def nth_append gattserverdisconnected_def)

text \<open>Runs on a link that is lost during one wait.\<close>

lemma send_packets_ok:
  "\<forall>s p. dataWriteError e s p = None \<Longrightarrow> fst (send_packets e fm s sd ps st) = None"
  by (induction ps arbitrary: st) (simp_all add: Let_def)

lemma send_sectors_acked:
  assumes "\<forall>s p. dataWriteError e s p = None"
    and "\<forall>j < n. events e (SectorKey j) = [ack_bytes (SectorKey j) 0]"
    and "n \<le> 65536"
  shows "fst (send_sectors e fm raw [k..<n] st) = None"
proof (induction "n - k" arbitrary: k st)
  case 0
  then show ?case by simp
next
  case (Suc m)
  then have kn: "k < n" and m: "m = n - Suc k" by simp_all
  have upt: "[k..<n] = k # [Suc k..<n]" using kn by (rule upt_conv_Cons)
  have ev: "events e (SectorKey k) = [ack_bytes (SectorKey k) 0]"
    using assms(2) kn by simp
  have aw: "fst (await_wait (SectorKey k) [ack_bytes (SectorKey k) 0] st') = Inr 0" for st'
    using kn assms(3) by (intro await_wait_acked [of _ k]) simp_all
  show ?case
    unfolding upt send_sectors_step
    by (simp only: send_packets_ok [OF assms(1)] ev aw option.case sum.case simp_thms if_False
        Suc.hyps(1) [OF m])
qed

lemma send_sectors_lost:
  assumes "\<forall>s p. dataWriteError e s p = None"
    and "\<forall>j < s. events e (SectorKey j) = [ack_bytes (SectorKey j) 0]"
    and "events e (SectorKey s) = [GattDisconnected]"
    and "s < n" and "n \<le> 65536"
  shows "k \<le> s \<Longrightarrow> \<exists>st_b. send_sectors e fm raw [k..<n] st
            = (Some AckTimeout, snd (await_wait (SectorKey s) [GattDisconnected] st_b))"
proof (induction "s - k" arbitrary: k st)
  case 0
  then have ks: "k = s" by simp
  have upt: "[s..<n] = s # [Suc s..<n]" using assms(4) by (rule upt_conv_Cons)
  define st_b where
    "st_b = snd (send_packets e fm s (sData raw s) [0..<pkts fm (sData raw s)] st)"
  have "send_sectors e fm raw [s..<n] st
      = (Some AckTimeout, snd (await_wait (SectorKey s) [GattDisconnected] st_b))"
    unfolding upt send_sectors_step st_b_def [symmetric]
    by (simp only: send_packets_ok [OF assms(1)] assms(3) await_wait_no_ack(3)
        option.case sum.case)
  then show ?case unfolding ks by blast
next
  case (Suc m)
  then have ks: "k < s" and m: "m = s - Suc k" and le: "Suc k \<le> s" by simp_all
  have kn: "k < n" using ks assms(4) by simp
  have upt: "[k..<n] = k # [Suc k..<n]" using kn by (rule upt_conv_Cons)
  have ev: "events e (SectorKey k) = [ack_bytes (SectorKey k) 0]"
    using assms(2) ks by simp
  have aw: "fst (await_wait (SectorKey k) [ack_bytes (SectorKey k) 0] st') = Inr 0" for st'
    using kn assms(5) by (intro await_wait_acked [of _ k]) simp_all
  show ?case
    unfolding upt send_sectors_step
    by (simp only: send_packets_ok [OF assms(1)] ev aw option.case sum.case simp_thms if_False
        Suc.hyps(1) [OF m le])
qed

lemma runOta_try_lost:
  assumes "totalS raw \<le> 65536"
    and "k0 = CmdKey 1 \<or> k0 = CmdKey 2 \<or> (\<exists>s < totalS raw. k0 = SectorKey s)"
  shows "\<exists>st_b. runOta_try (link_lost_at k0) raw st
            = (Some AckTimeout, snd (await_wait k0 [GattDisconnected] st_b))"
proof -
  have w: "cmdWriteError (link_lost_at k) b = None" for k b
    by (simp add: link_lost_at_def)
  have dw: "\<forall>s p. dataWriteError (link_lost_at k0) s p = None"
    by (simp add: link_lost_at_def)
  have ev0: "events (link_lost_at k) k = [GattDisconnected]" for k
    by (simp add: link_lost_at_def)
  have ev: "k \<noteq> k' \<Longrightarrow> events (link_lost_at k') k = [ack_bytes k 0]" for k k'
    by (simp add: link_lost_at_def)
  have aw1: "fst (await_wait (CmdKey 1) [ack_bytes (CmdKey 1) 0] st') = Inr 0" for st'
    by (intro await_wait_acked [of _ 1]) simp_all
  from assms(2) consider "k0 = CmdKey 1" | "k0 = CmdKey 2"
    | s where "s < totalS raw" "k0 = SectorKey s"
    by blast
  then show ?thesis
  proof cases
    case 1
    show ?thesis
      unfolding runOta_try_step
      unfolding 1
      by (simp only: w ev0 await_wait_no_ack(3) option.case sum.case) blast
  next
    case 2
    have e1: "events (link_lost_at k0) (CmdKey 1) = [ack_bytes (CmdKey 1) 0]"
      using 2 by (intro ev) simp
    have "\<forall>j < totalS raw. events (link_lost_at k0) (SectorKey j) = [ack_bytes (SectorKey j) 0]"
      using 2 by (simp add: ev)
    then have ss: "fst (send_sectors (link_lost_at k0) fm raw [0..<totalS raw] st') = None"
      for fm st'
      using dw assms(1) by (intro send_sectors_acked) simp_all
    have e2: "events (link_lost_at k0) (CmdKey 2) = [GattDisconnected]"
      using ev0 [of k0] 2 by simp
    show ?thesis
      unfolding runOta_try_step
      by (simp only: w e1 e2 aw1 ss await_wait_no_ack(3) option.case sum.case
          simp_thms if_False) (unfold 2, blast)
  next
    case 3
    have e1: "events (link_lost_at k0) (CmdKey 1) = [ack_bytes (CmdKey 1) 0]"
      using 3 by (intro ev) simp
    have a: "\<forall>j < s. events (link_lost_at k0) (SectorKey j) = [ack_bytes (SectorKey j) 0]"
      using 3 by (simp add: ev)
    have b: "events (link_lost_at k0) (SectorKey s) = [GattDisconnected]"
      using ev0 3 by simp
    obtain st_b where ss: "send_sectors (link_lost_at k0) (fastMode st) raw [0..<totalS raw]
        (snd (await_wait (CmdKey 1) [ack_bytes (CmdKey 1) 0]
               (emit (WriteCmd (startBuf (length raw))) st)))
        = (Some AckTimeout, snd (await_wait (SectorKey s) [GattDisconnected] st_b))"
      using send_sectors_lost [OF dw a b 3(1) assms(1), of 0 "fastMode st" raw] by blast
    show ?thesis
      unfolding runOta_try_step
      by (simp only: w e1 aw1 ss fst_conv snd_conv option.case sum.case simp_thms if_False)
        (unfold 3(2), blast)
  qed
qed

lemma runOta_lost:
  assumes "ota_file st = Some raw" and "ble st" and "totalS raw \<le> 65536"
    and "k0 = CmdKey 1 \<or> k0 = CmdKey 2 \<or> (\<exists>s < totalS raw. k0 = SectorKey s)"
  shows "\<exists>st_b. runOta (link_lost_at k0) st
     = addLog ''Error: ACK Timeout'' ''error''
         (setOtaStatus OtaFailed (snd (await_wait k0 [GattDisconnected] st_b)))"
proof -
  obtain st_b where r: "runOta_try (link_lost_at k0) raw
        (setProgress 0 (setOtaStatus OtaRunning st))
      = (Some AckTimeout, snd (await_wait k0 [GattDisconnected] st_b))"
    using runOta_try_lost [OF assms(3,4)] by blast
  show ?thesis
    unfolding runOta_step [OF assms(1,2)] r by (intro exI [of _ st_b]) simp
qed

section \<open>Timeouts, replaced waiters and the lost link\<close>

text \<open>
  Claim C5, as the code has it. A wait during which nothing arrives is rejected with
  \<^verbatim>\<open>'ACK Timeout'\<close> when its timer, started with a delay of 12000 ms, fires; a wait
  can fail in no other way. Whatever arrives, the resolver stays in the registry under
  its key after the wait has ended: nothing removes it. The key can still be used again,
  because a later wait on it stores its own resolver over the old one.
\<close>

theorem ack_timeout:
  "fst (await_wait k [] st) = Inl AckTimeout
   \<and> trace (snd (await_wait k [] st))
       = trace st @ [Registered k (length (promises st)) 12000,
                     TimerFired (length (promises st))]
   \<and> (\<forall>err. fst (await_wait k evs st) = Inl err \<longrightarrow> err = AckTimeout)
   \<and> ackResolvers (snd (await_wait k evs st)) k = Some (length (promises st))
   \<and> ackResolvers (snd (wait k (snd (await_wait k evs st)))) k
       = Some (Suc (length (promises st)))"
proof -
  obtain tr where all: "trace (snd (await_wait k evs st)) = trace st @ tr
     \<and> data_writes tr = [] \<and> progress_events tr = []
     \<and> (\<forall>s. registry_ok st \<and> fst (await_wait k evs st) = Inr s \<longrightarrow> list_ex (is_ack k s) tr)
     \<and> (\<forall>err. fst (await_wait k evs st) = Inl err \<longrightarrow> err = AckTimeout)"
    using await_wait_trace [of k evs st] ..
  then have c: "\<forall>err. fst (await_wait k evs st) = Inl err \<longrightarrow> err = AckTimeout" by simp
  show ?thesis
    using c by (simp add: await_wait_no_ack)
qed

theorem ack_timeout_witness:
  "fst (await_wait (CmdKey 1) [] (ready False [])) = Inl AckTimeout
   \<and> ackResolvers (snd (await_wait (CmdKey 1) [] (ready False []))) (CmdKey 1) = Some 0
   \<and> ackResolvers (snd (wait (CmdKey 1) (snd (await_wait (CmdKey 1) [] (ready False [])))))
        (CmdKey 1) = Some 1"
  using ack_timeout [of "CmdKey 1" "ready False []" "[]"] by simp

text \<open>
  Claim C5 as stated, the stale entry is removed on timeout, fails: after the wait for
  \<^verbatim>\<open>cmd_1\<close> has timed out, its resolver is still stored under \<^verbatim>\<open>cmd_1\<close>.
\<close>

theorem ack_timeout_counterexample:
  "fst (await_wait (CmdKey 1) [] (ready False [])) = Inl AckTimeout
   \<and> ackResolvers (snd (await_wait (CmdKey 1) [] (ready False []))) (CmdKey 1) \<noteq> None"
  by (simp add: await_wait_no_ack)

text \<open>
  Claim C9, as the code has it. Registering a second waiter under a key whose first
  waiter is still pending is not refused: \<^verbatim>\<open>wait\<close> returns the new waiter, both
  promises are pending, and the registry holds the resolver of the second one in place
  of the first. Calling the stored resolver settles the second promise only; the first
  one can then end only by its timer.
\<close>

theorem duplicate_wait_replaces:
  "fst (wait k (snd (wait k st))) = Suc (length (promises st))
   \<and> ackResolvers (snd (wait k st)) k = Some (length (promises st))
   \<and> ackResolvers (snd (wait k (snd (wait k st)))) k = Some (Suc (length (promises st)))
   \<and> promises (snd (wait k (snd (wait k st)))) = promises st @ [None, None]
   \<and> promises (call_resolver k (Suc (length (promises st))) status
         (snd (wait k (snd (wait k st)))))
       = promises st @ [None, Some (Inr status)]
   \<and> promises (timer_fired (length (promises st))
         (call_resolver k (Suc (length (promises st))) status
           (snd (wait k (snd (wait k st))))))
       = promises st @ [Some (Inl AckTimeout), Some (Inr status)]"
  by (simp add: call_resolver_def timer_fired_def nth_append list_update_append)

text \<open>
  Claim C9 as stated, the second registration is rejected as an error, fails: with a
  waiter for \<^verbatim>\<open>cmd_1\<close> pending, a second \<^verbatim>\<open>await wait('cmd_1')\<close> returns the status 0
  of the acknowledgement, the registry holds the second waiter, and the first is still
  pending.
\<close>

theorem duplicate_wait_counterexample:
  "promises (snd (wait (CmdKey 1) (ready False []))) = [None]
   \<and> ackResolvers (snd (wait (CmdKey 1) (ready False []))) (CmdKey 1) = Some 0
   \<and> fst (await_wait (CmdKey 1) [ack_bytes (CmdKey 1) 0] (snd (wait (CmdKey 1) (ready False []))))
       = Inr 0
   \<and> ackResolvers
        (snd (await_wait (CmdKey 1) [ack_bytes (CmdKey 1) 0]
               (snd (wait (CmdKey 1) (ready False []))))) (CmdKey 1) = Some 1
   \<and> promises
        (snd (await_wait (CmdKey 1) [ack_bytes (CmdKey 1) 0]
               (snd (wait (CmdKey 1) (ready False []))))) = [None, Some (Inr 0)]"
  by (simp add: run_defs)

text \<open>
  Claim C4, as the code has it. The listener for the lost link, in whatever state it
  runs, sets the connection status and the transfer status to \<^verbatim>\<open>'idle'\<close> and touches
  neither the registry nor any promise. A wait during which the link is lost and nothing
  else arrives therefore stays registered and pending until its own timer fires; it is
  then rejected with \<^verbatim>\<open>'ACK Timeout'\<close>, and its resolver is still in the registry
  afterwards. So a run of an image of at most 65536 sectors in which every write
  succeeds, every earlier wait is acknowledged with status 0, and the link is lost while
  the run waits for the start acknowledgement, for a sector acknowledgement or for the
  finish acknowledgement (\<open>link_lost_at k\<close>) ends with the status \<^verbatim>\<open>'failed'\<close> only when
  that timer has fired, logs \<^verbatim>\<open>'Error: ACK Timeout'\<close>, and leaves the resolver of that
  wait registered. The statement is about a loss that reaches the run during a wait;
  it says nothing of a run whose link is lost between two writes.
\<close>

theorem link_lost_effect:
  "otaStatus (gattserverdisconnected st) = OtaIdle
   \<and> connStatus (gattserverdisconnected st) = ConnIdle
   \<and> ackResolvers (gattserverdisconnected st) = ackResolvers st
   \<and> promises (gattserverdisconnected st) = promises st
   \<and> fst (await_wait k [GattDisconnected] st) = Inl AckTimeout
   \<and> trace (snd (await_wait k [GattDisconnected] st))
       = trace st @ [Registered k (length (promises st)) 12000, SetConnStatus ConnIdle,
                     SetOtaStatus OtaIdle, TimerFired (length (promises st))]
   \<and> ackResolvers (snd (await_wait k [GattDisconnected] st)) k = Some (length (promises st))
   \<and> (ota_file st = Some raw \<and> ble st \<and> totalS raw \<le> 65536
        \<and> (k = CmdKey 1 \<or> k = CmdKey 2 \<or> (\<exists>s < totalS raw. k = SectorKey s))
       \<longrightarrow> otaStatus (runOta (link_lost_at k) st) = OtaFailed
         \<and> (\<exists>rest. logs (runOta (link_lost_at k) st)
                = (''Error: ACK Timeout'', ''error'') # rest)
         \<and> ackResolvers (runOta (link_lost_at k) st) k \<noteq> None
         \<and> (\<exists>pre i. trace (runOta (link_lost_at k) st)
                = pre @ [Registered k i 12000, SetConnStatus ConnIdle, SetOtaStatus OtaIdle,
                         TimerFired i, SetOtaStatus OtaFailed]))"
proof -
  have a: "otaStatus (gattserverdisconnected st) = OtaIdle
   \<and> connStatus (gattserverdisconnected st) = ConnIdle
   \<and> ackResolvers (gattserverdisconnected st) = ackResolvers st
   \<and> promises (gattserverdisconnected st) = promises st
   \<and> fst (await_wait k [GattDisconnected] st) = Inl AckTimeout
   \<and> trace (snd (await_wait k [GattDisconnected] st))
       = trace st @ [Registered k (length (promises st)) 12000, SetConnStatus ConnIdle,
                     SetOtaStatus OtaIdle, TimerFired (length (promises st))]
   \<and> ackResolvers (snd (await_wait k [GattDisconnected] st)) k = Some (length (promises st))"
    by (simp add: await_wait_no_ack gattserverdisconnected_def)
  have b: "otaStatus (runOta (link_lost_at k) st) = OtaFailed
         \<and> (\<exists>rest. logs (runOta (link_lost_at k) st)
                = (''Error: ACK Timeout'', ''error'') # rest)
         \<and> ackResolvers (runOta (link_lost_at k) st) k \<noteq> None
         \<and> (\<exists>pre i. trace (runOta (link_lost_at k) st)
                = pre @ [Registered k i 12000, SetConnStatus ConnIdle, SetOtaStatus OtaIdle,
                         TimerFired i, SetOtaStatus OtaFailed])"
    if h: "ota_file st = Some raw \<and> ble st \<and> totalS raw \<le> 65536
        \<and> (k = CmdKey 1 \<or> k = CmdKey 2 \<or> (\<exists>s < totalS raw. k = SectorKey s))"
  proof -
    obtain st_b where r: "runOta (link_lost_at k) st
       = addLog ''Error: ACK Timeout'' ''error''
           (setOtaStatus OtaFailed (snd (await_wait k [GattDisconnected] st_b)))"
      using runOta_lost [of st raw k] h by blast
    have t: "trace (runOta (link_lost_at k) st)
        = trace st_b @ [Registered k (length (promises st_b)) 12000, SetConnStatus ConnIdle,
                        SetOtaStatus OtaIdle, TimerFired (length (promises st_b)),
                        SetOtaStatus OtaFailed]"
      unfolding r by (simp add: await_wait_no_ack)
    have "\<exists>pre i. trace (runOta (link_lost_at k) st)
                = pre @ [Registered k i 12000, SetConnStatus ConnIdle, SetOtaStatus OtaIdle,
                         TimerFired i, SetOtaStatus OtaFailed]"
      unfolding t by blast
    then show ?thesis unfolding r by simp
  qed
  show ?thesis using a b by blast
qed

theorem link_lost_effect_witness:
  "ota_file (ready False [1, 2, 3]) = Some [1, 2, 3] \<and> ble (ready False [1, 2, 3])
   \<and> totalS [1, 2, 3] \<le> 65536 \<and> 0 < totalS [1, 2, 3]
   \<and> otaStatus (runOta (link_lost_at (SectorKey 0)) (ready False [1, 2, 3])) = OtaFailed
   \<and> ackResolvers (runOta (link_lost_at (SectorKey 0)) (ready False [1, 2, 3])) (SectorKey 0)
       \<noteq> None"
proof -
  have n: "totalS [1, 2, 3] = 1"
    by (simp add: totalS_def ceil_div_def SECTOR_SIZE_def)
  have h: "ota_file (ready False [1, 2, 3]) = Some [1, 2, 3] \<and> ble (ready False [1, 2, 3])
        \<and> totalS [1, 2, 3] \<le> 65536
        \<and> (SectorKey 0 = CmdKey 1 \<or> SectorKey 0 = CmdKey 2
            \<or> (\<exists>s < totalS [1, 2, 3]. SectorKey 0 = SectorKey s))"
    by (simp add: n)
  show ?thesis
    using link_lost_effect [of "ready False [1, 2, 3]" "SectorKey 0" "[1, 2, 3]"] h n
    by simp
qed

text \<open>
  Claim C4 as stated fails when the link is lost while the run waits for the
  acknowledgement of sector 0: right after the event the status is \<^verbatim>\<open>'idle'\<close>; the run
  ends as \<^verbatim>\<open>'failed'\<close> only when the timer of the wait fires, with the message
  \<^verbatim>\<open>'Error: ACK Timeout'\<close>; and the resolver of \<^verbatim>\<open>sector_0\<close> is still registered
  at the end.
\<close>

theorem link_lost_counterexample:
  "trace (runOta (link_lost_at (SectorKey 0)) (ready False [1, 2, 3])) =
     [SetOtaStatus OtaRunning, SetProgress 0, WriteCmd [1, 0, 3, 0, 0, 0],
      Registered (CmdKey 1) 0 12000, AckResolved (CmdKey 1) 0 0,
      WriteData 0 0 [0, 0, 255, 1, 2, 3], Sleep 12, Registered (SectorKey 0) 1 12000,
      SetConnStatus ConnIdle, SetOtaStatus OtaIdle, TimerFired 1, SetOtaStatus OtaFailed]
   \<and> logs (runOta (link_lost_at (SectorKey 0)) (ready False [1, 2, 3]))
       = [(''Error: ACK Timeout'', ''error'')]
   \<and> ackResolvers (runOta (link_lost_at (SectorKey 0)) (ready False [1, 2, 3])) (SectorKey 0)
       = Some 1"
  by (simp add: run_defs link_lost_at_def)

section \<open>Further properties of the transfer\<close>

text \<open>
  A device that accepts everything: whatever the state of the registry, a run on an
  image of at most 65536 sectors ends with the status \<^verbatim>\<open>'success'\<close>, and the bytes it
  has written to the data characteristic are the packets of sector 0, then of sector 1,
  and so on, all of them.
\<close>

theorem accepting_device_succeeds:
  assumes "ota_file st = Some raw" and "ble st" and "totalS raw \<le> 65536"
  shows "otaStatus (runOta accepting st) = OtaSuccess
     \<and> (\<exists>tr. trace (runOta accepting st) = trace st @ tr
           \<and> map (\<lambda>(s, p, b). b) (data_writes tr)
               = concat (map (sector_packets (fastMode st) raw) [0..<totalS raw]))"
proof -
  have ok: "otaStatus (runOta accepting st) = OtaSuccess"
    using assms by (rule runOta_accepting)
  obtain tr where all: "trace (runOta accepting st) = trace st @ tr
     \<and> prefix (data_writes tr)
          (concat (map (sector_writes (fastMode st) raw) [0..<totalS raw]))
     \<and> prefix (progress_events tr)
          (0 # map (\<lambda>s. js_progress s (totalS raw)) [0..<totalS raw])
     \<and> (otaStatus (runOta accepting st) = OtaSuccess \<longrightarrow>
          data_writes tr = concat (map (sector_writes (fastMode st) raw) [0..<totalS raw])
          \<and> progress_events tr = 0 # map (\<lambda>s. js_progress s (totalS raw)) [0..<totalS raw])
     \<and> (registry_ok st \<longrightarrow> ordered {} tr)"
    using runOta_trace [OF assms(1,2), of accepting] ..
  have a: "trace (runOta accepting st) = trace st @ tr" using all by simp
  have "data_writes tr = concat (map (sector_writes (fastMode st) raw) [0..<totalS raw])"
    using all ok by simp
  then have b: "map (\<lambda>(s, p, b). b) (data_writes tr)
      = concat (map (sector_packets (fastMode st) raw) [0..<totalS raw])"
    by (simp add: map_concat comp_def sector_writes_bytes)
  show ?thesis
    using ok a b by blast
qed

theorem accepting_device_succeeds_witness:
  "ota_file (ready False [1, 2, 3]) = Some [1, 2, 3] \<and> ble (ready False [1, 2, 3])
   \<and> totalS [1, 2, 3] \<le> 65536
   \<and> otaStatus (runOta accepting (ready False [1, 2, 3])) = OtaSuccess"
proof -
  have n: "totalS [1, 2, 3] \<le> 65536"
    by (simp add: totalS_def ceil_div_def SECTOR_SIZE_def)
  show ?thesis
    using accepting_device_succeeds [of "ready False [1, 2, 3]" "[1, 2, 3]"] n by simp
qed

text \<open>
  The bytes of a packet: three header bytes and the chunk, so at most \<open>3 + pSize\<close>
  bytes; the first two bytes are the sector index modulo 65536, low byte first.
\<close>

theorem packet_wire_format:
  "length (pBuf fm s sd p) = 3 + length (chunk fm sd p)
   \<and> length (pBuf fm s sd p) \<le> 3 + pSize fm
   \<and> unat (pBuf fm s sd p ! 0) + 256 * unat (pBuf fm s sd p ! 1) = s mod 65536
   \<and> packet_payload (pBuf fm s sd p) = chunk fm sd p"
  by (simp add: pBuf_def setUint16_le_def chunk_def slice_def unat_le16 packet_payload_def)

text \<open>
  A start command that is answered with a status other than 0: the run ends with the
  status \<^verbatim>\<open>'failed'\<close> and the message \<^verbatim>\<open>'Error: Rejected'\<close>, and nothing has been
  written to the data characteristic.
\<close>

theorem start_rejected:
  assumes "ota_file st = Some raw" and "ble st"
    and "cmdWriteError e (startBuf (length raw)) = None"
    and "events e (CmdKey 1) = [ack_bytes (CmdKey 1) status]"
    and "0 < status" and "status < 65536"
  shows "otaStatus (runOta e st) = OtaFailed
     \<and> (\<exists>rest. logs (runOta e st) = (''Error: Rejected'', ''error'') # rest)
     \<and> (\<exists>tr. trace (runOta e st) = trace st @ tr \<and> data_writes tr = [])"
proof -
  define st0 where "st0 = setProgress 0 (setOtaStatus OtaRunning st)"
  define st1 where "st1 = emit (WriteCmd (startBuf (length raw))) st0"
  define st2 where "st2 = snd (await_wait (CmdKey 1) [ack_bytes (CmdKey 1) status] st1)"
  have aw: "fst (await_wait (CmdKey 1) [ack_bytes (CmdKey 1) status] st1) = Inr status"
    using assms(6) by (intro await_wait_acked [of _ 1]) simp_all
  have r: "runOta_try e raw st0 = (Some Rejected, st2)"
    unfolding runOta_try_step st1_def [symmetric] using assms(5)
    by (simp only: assms(3,4) aw option.case sum.case st2_def) simp
  have run: "runOta e st = addLog ''Error: Rejected'' ''error'' (setOtaStatus OtaFailed st2)"
    unfolding runOta_step [OF assms(1,2)] st0_def [symmetric] r by simp
  obtain trA where allA: "trace (snd (await_wait (CmdKey 1) [ack_bytes (CmdKey 1) status] st1))
        = trace st1 @ trA
     \<and> data_writes trA = [] \<and> progress_events trA = []
     \<and> (\<forall>s. registry_ok st1
              \<and> fst (await_wait (CmdKey 1) [ack_bytes (CmdKey 1) status] st1) = Inr s
           \<longrightarrow> list_ex (is_ack (CmdKey 1) s) trA)
     \<and> (\<forall>err. fst (await_wait (CmdKey 1) [ack_bytes (CmdKey 1) status] st1) = Inl err
           \<longrightarrow> err = AckTimeout)"
    using await_wait_trace [of "CmdKey 1" "[ack_bytes (CmdKey 1) status]" st1] ..
  define tr where "tr = [SetOtaStatus OtaRunning, SetProgress 0,
      WriteCmd (startBuf (length raw))] @ trA @ [SetOtaStatus OtaFailed]"
  have t: "trace (runOta e st) = trace st @ tr"
    unfolding run using allA by (simp add: st2_def st1_def st0_def tr_def)
  have d: "data_writes tr = []"
    using allA by (simp add: tr_def)
  have a: "otaStatus (runOta e st) = OtaFailed" unfolding run by simp
  have b: "\<exists>rest. logs (runOta e st) = (''Error: Rejected'', ''error'') # rest"
    unfolding run by simp
  show ?thesis
    using a b t d by blast
qed

theorem start_rejected_witness:
  "otaStatus (runOta (accepting\<lparr>events := \<lambda>k. [ack_bytes k 1]\<rparr>) (ready False [1, 2, 3]))
     = OtaFailed
   \<and> data_writes (trace (runOta (accepting\<lparr>events := \<lambda>k. [ack_bytes k 1]\<rparr>)
        (ready False [1, 2, 3]))) = []"
proof -
  define e where "e = accepting\<lparr>events := \<lambda>k. [ack_bytes k 1]\<rparr>"
  have h: "ota_file (ready False [1, 2, 3]) = Some [1, 2, 3]" "ble (ready False [1, 2, 3])"
    "cmdWriteError e (startBuf (length [1, 2, 3 :: byte])) = None"
    "events e (CmdKey 1) = [ack_bytes (CmdKey 1) 1]" "(0::nat) < 1" "(1::nat) < 65536"
    by (simp_all add: e_def accepting_def)
  obtain tr where "trace (runOta e (ready False [1, 2, 3])) = trace (ready False [1, 2, 3]) @ tr"
    "data_writes tr = []" and "otaStatus (runOta e (ready False [1, 2, 3])) = OtaFailed"
    using start_rejected [OF h] by blast
  then show ?thesis unfolding e_def by simp
qed

end
